theory Spec2Isabelle
  imports Main "HOL-Library.Word" "HOL-Library.Multiset"
begin

unbundle bit_operations_syntax

section \<open>JavaScript strings and numbers\<close>

subsection \<open>Strings\<close>

text \<open>
  A JavaScript string is a sequence of UTF-16 code units, so \<open>jsstring\<close> is a list of
  16-bit words; \<open>length\<close> is the source's \<open>.length\<close> and \<open>charCodeAt\<close> is \<open>unat\<close> of an
  element. \<open>js\<close> writes an ASCII literal. Indices, lengths, counters and scores, which
  stay small integers, are \<open>nat\<close> or \<open>int\<close>; the 32-bit steps of \<open>hashCode\<close> are \<open>32 word\<close>;
  the values parsed from digit runs and the sort keys are of the type \<open>Number\<close> below.
\<close>

type_synonym jsstring = "16 word list"

definition js :: "string \<Rightarrow> jsstring" where
  "js s = map of_char s"

text \<open>
  \<open>Number.prototype.toString()\<close> of a non-negative integer: its decimal digits, the
  digit \<open>d\<close> being the code unit \<open>48 + d\<close>.
\<close>

definition digitChar :: "nat \<Rightarrow> 16 word" where
  "digitChar d = of_nat (48 + d)"

fun toStringNat :: "nat \<Rightarrow> jsstring" where
  "toStringNat n =
     (if n < 10 then [digitChar n]
      else toStringNat (n div 10) @ [digitChar (n mod 10)])"

declare toStringNat.simps [simp del]

text \<open>The decimal digits of a number determine it.\<close>

lemma uint_digit: "d < 10 \<Longrightarrow> uint (digitChar d) = 48 + int d"
proof -
  assume "d < 10"
  then have "unat (of_nat (48 + d) :: 16 word) = 48 + d"
    by (subst unat_of_nat) simp
  then show ?thesis by (simp only: digitChar_def uint_nat)
qed

lemma decimal_value_toStringNat:
  "foldl (\<lambda>acc c. acc * 10 + (uint c - 48)) 0 (toStringNat n) = int n"
proof (induction n rule: toStringNat.induct)
  case (1 n)
  show ?case
  proof (cases "n < 10")
    case True
    then show ?thesis
      by (subst toStringNat.simps) (simp add: uint_digit)
  next
    case False
    have "n mod 10 < 10" by simp
    then have u: "uint (digitChar (n mod 10)) = 48 + int (n mod 10)"
      by (rule uint_digit)
    from False 1
    have "foldl (\<lambda>acc c. acc * 10 + (uint c - 48)) 0 (toStringNat (n div 10)) = int (n div 10)"
      by simp
    with False u show ?thesis
      by (subst toStringNat.simps) (simp add: zdiv_int zmod_int)
  qed
qed

lemma toStringNat_inj: "toStringNat m = toStringNat n \<Longrightarrow> m = n"
  by (metis decimal_value_toStringNat of_nat_eq_iff)

text \<open>\<open>String.prototype.padStart(n, c)\<close> with a one-character filler.\<close>

definition padStart :: "nat \<Rightarrow> 16 word \<Rightarrow> jsstring \<Rightarrow> jsstring" where
  "padStart n c s = replicate (n - length s) c @ s"

text \<open>\<open>\d\<close> of a JavaScript regular expression: the ten ASCII digits only.\<close>

definition isDigit :: "16 word \<Rightarrow> bool" where
  "isDigit c \<longleftrightarrow> 0x30 \<le> c \<and> c \<le> 0x39"

subsection \<open>Numbers\<close>

text \<open>
  A JavaScript Number is a double. The Numbers of the name sequencer are whole, so a
  Number is the integer it holds (\<open>Finite n\<close>, for \<open>n\<close> a double), or \<open>Infinity\<close>,
  \<open>-Infinity\<close> or \<open>NaN\<close>.
\<close>

datatype Number = Finite int | PosInfinity | NegInfinity | NaN

text \<open>
  The conversion of an integer to the Number nearest to it. A double holds 53
  significant bits: \<open>roundNat n\<close> cuts the \<open>e\<close> bits of \<open>n\<close> beyond its leading 53 and
  rounds to the nearest multiple of \<open>2 ^ e\<close>, a tie to the one with an even 53-bit part;
  \<open>toNumber\<close> gives an infinity when the rounded magnitude reaches \<open>2 ^ 1024\<close>.
\<close>

fun bitLength :: "nat \<Rightarrow> nat" where
  "bitLength n = (if n = 0 then 0 else Suc (bitLength (n div 2)))"

declare bitLength.simps [simp del]

definition roundNat :: "nat \<Rightarrow> nat" where
  "roundNat n =
     (let e = bitLength n - 53;
          q = n div 2 ^ e;
          r = n mod 2 ^ e
      in if 2 * r > 2 ^ e \<or> (2 * r = 2 ^ e \<and> odd q) then (q + 1) * 2 ^ e else q * 2 ^ e)"

definition toNumber :: "int \<Rightarrow> Number" where
  "toNumber n =
     (let m = roundNat (nat \<bar>n\<bar>) in
      if m \<ge> 2 ^ 1024 then (if n < 0 then NegInfinity else PosInfinity)
      else Finite (if n < 0 then - int m else int m))"

text \<open>
  \<open>x - y\<close>, \<open>x < y\<close> and \<open>x === y\<close> on Numbers. The difference of two doubles is the exact
  difference, rounded.
\<close>

fun numberSub :: "Number \<Rightarrow> Number \<Rightarrow> Number" where
  "numberSub (Finite x) (Finite y) = toNumber (x - y)"
| "numberSub (Finite x) PosInfinity = NegInfinity"
| "numberSub (Finite x) NegInfinity = PosInfinity"
| "numberSub PosInfinity (Finite y) = PosInfinity"
| "numberSub PosInfinity NegInfinity = PosInfinity"
| "numberSub NegInfinity (Finite y) = NegInfinity"
| "numberSub NegInfinity PosInfinity = NegInfinity"
| "numberSub PosInfinity PosInfinity = NaN"
| "numberSub NegInfinity NegInfinity = NaN"
| "numberSub NaN y = NaN"
| "numberSub x NaN = NaN"

fun numberLess :: "Number \<Rightarrow> Number \<Rightarrow> bool" where
  "numberLess (Finite x) (Finite y) = (x < y)"
| "numberLess (Finite x) PosInfinity = True"
| "numberLess NegInfinity (Finite y) = True"
| "numberLess NegInfinity PosInfinity = True"
| "numberLess x y = False"

definition strictEquals :: "Number \<Rightarrow> Number \<Rightarrow> bool" where
  "strictEquals x y \<longleftrightarrow> x = y \<and> x \<noteq> NaN"

text \<open>
  \<open>parseInt(ds, 10)\<close> on a non-empty run of ASCII digits: the Number nearest to the integer that
  the digits write, \<open>decimalValue ds\<close>. (For runs of more than 20 significant digits the
  language lets an engine read the digits beyond the 20th as zeros before it rounds;
  the engines in use round the exact value, which is what is written here.)
\<close>

definition decimalValue :: "jsstring \<Rightarrow> int" where
  "decimalValue ds = foldl (\<lambda>acc c. acc * 10 + (uint c - 48)) 0 ds"

definition parseInt :: "jsstring \<Rightarrow> Number" where
  "parseInt ds = toNumber (decimalValue ds)"

text \<open>The Numbers that are whole and not negative, or \<open>Infinity\<close>.\<close>

definition wholeOrInfinity :: "Number \<Rightarrow> bool" where
  "wholeOrInfinity x \<longleftrightarrow> x = PosInfinity \<or> (\<exists>m\<ge>0. x = Finite m)"

subsection \<open>Indexing\<close>

text \<open>\<open>str[i]\<close>: the code unit at \<open>i\<close>, \<open>undefined\<close> (here \<open>None\<close>) out of range.\<close>

definition charAt :: "jsstring \<Rightarrow> nat \<Rightarrow> 16 word option" where
  "charAt s i = (if i < length s then Some (s ! i) else None)"

text \<open>\<open>Array.prototype.indexOf\<close>: the first position of the element, \<open>-1\<close> when absent.\<close>

definition indexOf :: "'a list \<Rightarrow> 'a \<Rightarrow> int" where
  "indexOf xs x =
     (if x \<in> set xs then int (length (takeWhile (\<lambda>y. y \<noteq> x) xs)) else - 1)"

text \<open>\<open>String.prototype.lastIndexOf\<close> for a single code unit, \<open>-1\<close> when absent.\<close>

definition lastIndexOf :: "jsstring \<Rightarrow> 16 word \<Rightarrow> int" where
  "lastIndexOf s c =
     (if c \<in> set s then int (length s) - 1 - int (length (takeWhile (\<lambda>y. y \<noteq> c) (rev s)))
      else - 1)"

section \<open>Utils (src/js/utils.js)\<close>

text \<open>
  \<open>removeFileExtension(filename) = filename.replace(/\.[^/.]+$/, '')\<close>.
  The pattern is anchored at the end of the string, so a match starting at some position
  runs to the end: \<open>matchExtAt\<close> tests the pattern at the head of a suffix, and the
  leftmost position that matches is the one \<open>replace\<close> removes.
\<close>

definition extChar :: "16 word \<Rightarrow> bool" where
  "extChar c \<longleftrightarrow> c \<noteq> 0x2F \<and> c \<noteq> 0x2E"

fun matchExtAt :: "jsstring \<Rightarrow> bool" where
  "matchExtAt [] = False"
| "matchExtAt (c # cs) = (c = 0x2E \<and> cs \<noteq> [] \<and> list_all extChar cs)"

fun removeFileExtension :: "jsstring \<Rightarrow> jsstring" where
  "removeFileExtension [] = []"
| "removeFileExtension (c # cs) =
     (if matchExtAt (c # cs) then [] else c # removeFileExtension cs)"

text \<open>
  \<open>getFileExtension(filename) = filename.slice((filename.lastIndexOf('.') - 1 >>> 0) + 2)\<close>:
  \<open>>>> 0\<close> reads the difference as an unsigned 32-bit integer.
\<close>

definition getFileExtension :: "jsstring \<Rightarrow> jsstring" where
  "getFileExtension filename =
     drop (unat (word_of_int (lastIndexOf filename 0x2E - 1) :: 32 word) + 2) filename"

section \<open>NameProcessor (src/js/zipGenerator.js)\<close>

subsection \<open>Data\<close>

datatype Status = Waiting | Processing | Completed | Failed

text \<open>
  The file object of \<open>FileHandler.addFiles\<close>. \<open>file_blob\<close> is the source's \<open>file\<close>, the
  uploaded blob (its bytes); \<open>id_file\<close> and \<open>size_file\<close> are \<open>id\<close> and \<open>size\<close>; \<open>error\<close> is \<open>null\<close> or a message; the status strings \<open>'waiting'\<close>, \<open>'processing'\<close>,
  \<open>'completed'\<close>, \<open>'error'\<close> are the constructors of \<open>Status\<close>.
\<close>

record InputFile =
  id_file :: jsstring
  file_blob :: "8 word list"
  name :: jsstring
  size_file :: nat
  status :: Status
  outputName :: jsstring
  progress :: nat
  error :: "jsstring option"

record NumberToken =
  value_tok :: Number
  originalString :: jsstring
  index :: nat
  length_tok :: nat

text \<open>
  The object \<open>{...fileObj, fileName, numbers, primaryNumber, originalIndex}\<close> of
  \<open>extractNumbers\<close>: \<open>fileObj\<close> holds the copied fields of the file object.
\<close>

record RankedFile =
  fileObj :: InputFile
  fileName :: jsstring
  numbers :: "NumberToken list"
  primaryNumber :: Number
  originalIndex :: int

record OutputMapping =
  fileId :: jsstring
  originalName :: jsstring
  outputName_map :: jsstring
  sequenceNumber :: nat
  primaryNumber_map :: Number

text \<open>
  The state of a \<open>NameProcessor\<close>: \<open>lastIndex\<close> of its global regular expression
  \<open>numberPattern = /(\d+)/g\<close>, and \<open>sortedFiles\<close>.
\<close>

record NameProcessor =
  lastIndex :: nat
  sortedFiles :: "RankedFile list"

subsection \<open>hashCode\<close>

text \<open>
  One round of the loop: \<open>hash = ((hash << 5) - hash) + char; hash = hash & hash\<close>.
  \<open>hash << 5\<close> and \<open>hash & hash\<close> are 32-bit operations and the additions between them
  are exact, so the round is 32-bit arithmetic.
\<close>

definition hashStep :: "32 word \<Rightarrow> 16 word \<Rightarrow> 32 word" where
  "hashStep hash c = (push_bit 5 hash - hash) + ucast c"

text \<open>\<open>Math.abs\<close> of the signed reading of the final 32-bit value.\<close>

definition hashCode :: "jsstring \<Rightarrow> int" where
  "hashCode str = (if length str = 0 then 0 else \<bar>sint (foldl hashStep 0 str)\<bar>)"

subsection \<open>extractNumbers\<close>

text \<open>
  \<open>numberPattern.exec(fileName)\<close> with the pattern's \<open>lastIndex\<close> at \<open>lastIdx\<close>: the
  search starts there, the first maximal run of digits at or after it is the match, and
  \<open>lastIndex\<close> becomes the end of the match. Without a match the result is \<open>null\<close> (here
  \<open>None\<close>) and \<open>lastIndex\<close> is reset to 0.
\<close>

definition exec :: "nat \<Rightarrow> jsstring \<Rightarrow> (NumberToken \<times> nat) option" where
  "exec lastIdx str =
     (let start = lastIdx + length (takeWhile (\<lambda>c. \<not> isDigit c) (drop lastIdx str)) in
      if start \<ge> length str then None
      else
        let ds = takeWhile isDigit (drop start str) in
        Some (\<lparr>value_tok = parseInt ds, originalString = ds, index = start,
               length_tok = length ds\<rparr>, start + length ds))"

lemma exec_advances:
  assumes "exec lastIdx str = Some (tok, lastIdx')"
  shows "lastIdx < lastIdx' \<and> lastIdx < length str"
proof -
  define start where
    "start = lastIdx + length (takeWhile (\<lambda>c. \<not> isDigit c) (drop lastIdx str))"
  from assms have lt: "start < length str"
    and eq: "lastIdx' = start + length (takeWhile isDigit (drop start str))"
    by (auto simp: exec_def Let_def start_def split: if_splits)
  have "lastIdx \<le> start" by (simp add: start_def)
  moreover have "isDigit (str ! start)"
  proof -
    let ?rest = "drop lastIdx str"
    let ?pre = "takeWhile (\<lambda>c. \<not> isDigit c) ?rest"
    have "length ?pre < length ?rest" using lt by (simp add: start_def)
    then have "\<not> (\<lambda>c. \<not> isDigit c) (?rest ! length ?pre)"
      by (rule nth_length_takeWhile)
    moreover have "?rest ! length ?pre = str ! start"
      using lt by (simp add: start_def)
    ultimately show ?thesis by simp
  qed
  then have "takeWhile isDigit (drop start str) \<noteq> []"
    using lt by (simp add: takeWhile_eq_Nil_iff hd_drop_conv_nth)
  ultimately show ?thesis using eq lt by (cases "takeWhile isDigit (drop start str)") auto
qed

text \<open>
  The loop \<open>while ((match = this.numberPattern.exec(fileName)) !== null) numbers.push(...)\<close>,
  started with the pattern's \<open>lastIndex\<close> at \<open>lastIdx\<close>; it returns the tokens and the
  \<open>lastIndex\<close> the pattern is left with.
\<close>

function execAll :: "nat \<Rightarrow> jsstring \<Rightarrow> NumberToken list \<times> nat" where
  "execAll lastIdx str =
     (case exec lastIdx str of
        None \<Rightarrow> ([], 0)
      | Some (tok, lastIdx') \<Rightarrow>
          (let (toks, final) = execAll lastIdx' str in (tok # toks, final)))"
  by pat_completeness auto
termination
proof (relation "measure (\<lambda>(lastIdx, str). length str - lastIdx)")
  show "wf (measure (\<lambda>(lastIdx, str). length str - lastIdx))" by simp
next
  fix lastIdx :: nat and str :: jsstring and x2 :: "NumberToken \<times> nat" and x1 y
  assume "exec lastIdx str = Some x2" and "(x1, y) = x2"
  then have "exec lastIdx str = Some (x1, y)" by simp
  from exec_advances [OF this]
  show "((y, str), lastIdx, str) \<in> measure (\<lambda>(lastIdx, str). length str - lastIdx)"
    by auto
qed

declare execAll.simps [simp del]

subsection \<open>getPrimaryNumber and calculateNumberScore\<close>

text \<open>The array \<open>['-', '_', ' ', '.', '(', ')', '[', ']']\<close>.\<close>

definition separators :: "16 word list" where
  "separators = [0x2D, 0x5F, 0x20, 0x2E, 0x28, 0x29, 0x5B, 0x5D]"

text \<open>
  \<open>separators.includes(ch)\<close> for \<open>ch\<close> a one-character string, or the empty string or
  \<open>undefined\<close> (both \<open>None\<close>), which the array does not hold.
\<close>

definition includesSep :: "16 word option \<Rightarrow> bool" where
  "includesSep ch = (case ch of None \<Rightarrow> False | Some c \<Rightarrow> c \<in> set separators)"

text \<open>
  \<open>calculateNumberScore(numberObj, fileName)\<close>, the four additions in the source's order.
  The comparisons \<open>index < fileNameLength * 0.2\<close> and \<open>index > fileNameLength * 0.8\<close> are
  between an integer and a double product; for integers they decide \<open>5 * index < length\<close>
  and \<open>5 * index > 4 * length\<close> (the product is the exact integer when the length is a
  multiple of 5, and differs from the exact quotient by far less than the distance to the
  next integer otherwise), which is how they are written here. The value of a token is
  \<open>parseInt\<close> of a run of digits, a whole number from 0 on or \<open>Infinity\<close>; \<open>Infinity <= 999\<close>
  is false, and so is \<open>NaN <= 999\<close>. For \<open>-Infinity\<close>, which no token holds, the source's
  score would be \<open>Infinity\<close>; the score is an integer here.
\<close>

definition calculateNumberScore :: "NumberToken \<Rightarrow> jsstring \<Rightarrow> int" where
  "calculateNumberScore numberObj fname =
     (let v = value_tok numberObj;
          i = index numberObj;
          len = length_tok numberObj;
          fileNameLength = length fname;
          score1 = (if i = 0 \<or> i + len = fileNameLength then 50
                    else if 5 * i < fileNameLength \<or> 5 * i > 4 * fileNameLength then 30
                    else 0);
          score2 = (if len \<ge> 1 \<and> len \<le> 3 then score1 + (30 - (int len - 1) * 5)
                    else score1);
          score3 = (case v of
                      Finite n \<Rightarrow> if n \<le> 999 then score2 + max 0 (20 - n div 50) else score2
                    | _ \<Rightarrow> score2);
          beforeChar = (if i > 0 then charAt fname (i - 1) else None);
          afterChar = (if i + len < fileNameLength then charAt fname (i + len) else None)
      in if includesSep beforeChar \<or> includesSep afterChar then score3 + 15 else score3)"

text \<open>
  The loop of \<open>getPrimaryNumber\<close> over \<open>numbers[1..]\<close>, carrying \<open>bestNumber\<close> and
  \<open>bestScore\<close>: a later token replaces the best one only on a strictly higher score.
\<close>

fun bestLoop :: "jsstring \<Rightarrow> NumberToken \<Rightarrow> int \<Rightarrow> NumberToken list \<Rightarrow> NumberToken" where
  "bestLoop fname bestNumber bestScore [] = bestNumber"
| "bestLoop fname bestNumber bestScore (t # ts) =
     (let score = calculateNumberScore t fname in
      if score > bestScore then bestLoop fname t score ts
      else bestLoop fname bestNumber bestScore ts)"

fun getPrimaryNumber :: "NumberToken list \<Rightarrow> jsstring \<Rightarrow> Number" where
  "getPrimaryNumber [] fname = Finite (hashCode fname)"
| "getPrimaryNumber [t] fname = value_tok t"
| "getPrimaryNumber (t # ts) fname =
     value_tok (bestLoop fname t (calculateNumberScore t fname) ts)"

text \<open>
  The callback of \<open>files.map\<close> in \<open>extractNumbers\<close> for one file object: the pattern's
  \<open>lastIndex\<close> is set to 0, the \<open>exec\<close> loop runs, and the ranked object is built.
\<close>

definition rankFile ::
  "InputFile list \<Rightarrow> NameProcessor \<Rightarrow> InputFile \<Rightarrow> RankedFile \<times> NameProcessor" where
  "rankFile files np f =
     (let fname = removeFileExtension (name f);
          np1 = np\<lparr>lastIndex := 0\<rparr>;
          (nums, final) = execAll (lastIndex np1) fname;
          np2 = np1\<lparr>lastIndex := final\<rparr>
      in (\<lparr>fileObj = f, fileName = fname, numbers = nums,
            primaryNumber = getPrimaryNumber nums fname,
            originalIndex = indexOf files f\<rparr>, np2))"

text \<open>\<open>Array.prototype.map\<close> with a callback that reads and writes the processor.\<close>

fun mapState :: "('s \<Rightarrow> 'a \<Rightarrow> 'b \<times> 's) \<Rightarrow> 's \<Rightarrow> 'a list \<Rightarrow> 'b list \<times> 's" where
  "mapState g s [] = ([], s)"
| "mapState g s (x # xs) =
     (let (y, s1) = g s x; (ys, s2) = mapState g s1 xs in (y # ys, s2))"

definition extractNumbers ::
  "NameProcessor \<Rightarrow> InputFile list \<Rightarrow> RankedFile list \<times> NameProcessor" where
  "extractNumbers np files = mapState (rankFile files) np files"

subsection \<open>sortFilesByNumbers\<close>

text \<open>
  The comparator passed to \<open>sort\<close>. \<open>localeCompare\<close> is
  \<open>String.prototype.localeCompare(_, 'zh-CN', {numeric: true})\<close>, a function of the
  platform's collation library that is not part of the repository: it is the parameter
  \<open>localeCompare\<close> here.
\<close>

definition compareFiles ::
  "(jsstring \<Rightarrow> jsstring \<Rightarrow> int) \<Rightarrow> RankedFile \<Rightarrow> RankedFile \<Rightarrow> Number" where
  "compareFiles localeCompare a b =
     (if \<not> strictEquals (primaryNumber a) (primaryNumber b) then
        numberSub (primaryNumber a) (primaryNumber b)
      else if fileName a \<noteq> fileName b then Finite (localeCompare (fileName a) (fileName b))
      else Finite (originalIndex a - originalIndex b))"

text \<open>
  \<open>Array.prototype.sort(comparefn)\<close>: a stable sort (ECMAScript 2019), modelled as the
  stable insertion sort. An element \<open>x\<close> moves behind \<open>y\<close> only when \<open>comparefn(x, y) > 0\<close>;
  a result that is \<open>NaN\<close> counts as 0.
\<close>

fun insertBy :: "('a \<Rightarrow> 'a \<Rightarrow> Number) \<Rightarrow> 'a \<Rightarrow> 'a list \<Rightarrow> 'a list" where
  "insertBy comparefn x [] = [x]"
| "insertBy comparefn x (y # ys) =
     (if numberLess (Finite 0) (comparefn x y) then y # insertBy comparefn x ys
      else x # y # ys)"

fun arraySort :: "('a \<Rightarrow> 'a \<Rightarrow> Number) \<Rightarrow> 'a list \<Rightarrow> 'a list" where
  "arraySort comparefn [] = []"
| "arraySort comparefn (x # xs) = insertBy comparefn x (arraySort comparefn xs)"

definition sortFilesByNumbers ::
  "(jsstring \<Rightarrow> jsstring \<Rightarrow> int) \<Rightarrow> RankedFile list \<Rightarrow> RankedFile list" where
  "sortFilesByNumbers localeCompare filesWithNumbers =
     arraySort (compareFiles localeCompare) filesWithNumbers"

subsection \<open>generateOutputNames and processFileNames\<close>

definition outputMapping :: "nat \<Rightarrow> nat \<Rightarrow> RankedFile \<Rightarrow> OutputMapping" where
  "outputMapping digits i f =
     (let sequenceNumber = i + 1;
          paddedNumber = padStart digits 0x30 (toStringNat sequenceNumber)
      in \<lparr>fileId = id_file (fileObj f), originalName = name (fileObj f),
           outputName_map = paddedNumber @ js ''.zip'',
           sequenceNumber = sequenceNumber,
           primaryNumber_map = primaryNumber f\<rparr>)"

definition generateOutputNames :: "RankedFile list \<Rightarrow> OutputMapping list" where
  "generateOutputNames sortedList =
     (let totalFiles = length sortedList;
          digits = max 3 (length (toStringNat totalFiles))
      in map (\<lambda>(i, f). outputMapping digits i f) (enumerate 0 sortedList))"

text \<open>
  \<open>processFileNames(files)\<close>: the three steps, then \<open>this.sortedFiles = sortedFiles\<close>.
  No step raises for file objects whose \<open>name\<close> is a string, so the \<open>catch\<close> branch of the
  source (which reports and returns \<open>[]\<close>) has no counterpart.
\<close>

definition processFileNames ::
  "(jsstring \<Rightarrow> jsstring \<Rightarrow> int) \<Rightarrow> NameProcessor \<Rightarrow> InputFile list
     \<Rightarrow> OutputMapping list \<times> NameProcessor" where
  "processFileNames localeCompare np files =
     (let (filesWithNumbers, np1) = extractNumbers np files;
          sortedList = sortFilesByNumbers localeCompare filesWithNumbers;
          nameMapping = generateOutputNames sortedList
      in (nameMapping, np1\<lparr>sortedFiles := sortedList\<rparr>))"

text \<open>The state the constructor of \<open>NameProcessor\<close> sets up.\<close>

definition newNameProcessor :: NameProcessor where
  "newNameProcessor = \<lparr>lastIndex = 0, sortedFiles = []\<rparr>"

text \<open>
  The file object \<open>FileHandler.addFiles\<close> creates for an uploaded file with the given id,
  bytes and name: \<open>size\<close> is the size of the blob, and the other fields start as
  \<open>'waiting'\<close>, \<open>''\<close>, \<open>0\<close> and \<open>null\<close>.
\<close>

definition newFileObj :: "jsstring \<Rightarrow> 8 word list \<Rightarrow> jsstring \<Rightarrow> InputFile" where
  "newFileObj fileId' blob fname =
     \<lparr>id_file = fileId', file_blob = blob, name = fname, size_file = length blob,
      status = Waiting, outputName = [], progress = 0, error = None\<rparr>"

subsection \<open>A natural-numeric comparison\<close>

text \<open>
  Modelled from the spec: the platform's \<open>localeCompare\<close> with \<open>numeric: true\<close> is not in
  the repository. The spec describes it as the "natural-numeric comparison: string
  comparison where embedded digit runs compare by numeric value rather than
  character-by-character". \<open>naturalCompare\<close> follows these words: a string is cut into
  its maximal digit runs and its other code units; two strings are compared piece by
  piece, two digit runs by their values, two other code units by their codes, and a
  digit run before any other code unit. It stands for the parameter \<open>localeCompare\<close>
  in concrete evaluations only.
\<close>

datatype piece = Run jsstring | Unit "16 word"

fun pieces :: "jsstring \<Rightarrow> piece list" where
  "pieces [] = []"
| "pieces (c # cs) =
     (if isDigit c then
        (case pieces cs of
           Run ds # rest \<Rightarrow> Run (c # ds) # rest
         | rest \<Rightarrow> Run [c] # rest)
      else Unit c # pieces cs)"

fun comparePieces :: "piece list \<Rightarrow> piece list \<Rightarrow> int" where
  "comparePieces [] [] = 0"
| "comparePieces [] (q # qs) = - 1"
| "comparePieces (p # ps) [] = 1"
| "comparePieces (Run a # ps) (Run b # qs) =
     (if decimalValue a < decimalValue b then - 1
      else if decimalValue a > decimalValue b then 1
      else comparePieces ps qs)"
| "comparePieces (Unit a # ps) (Unit b # qs) =
     (if a < b then - 1 else if a > b then 1 else comparePieces ps qs)"
| "comparePieces (Run a # ps) (Unit b # qs) = - 1"
| "comparePieces (Unit a # ps) (Run b # qs) = 1"

definition naturalCompare :: "jsstring \<Rightarrow> jsstring \<Rightarrow> int" where
  "naturalCompare a b = comparePieces (pieces a) (pieces b)"

subsection \<open>The order as the specification words it\<close>

text \<open>
  The specification orders the files by (a) primary number, then (b) the natural-numeric
  comparison of the stripped names, then (c) the original index. \<open>rankedBefore\<close> is that
  strict order, written from the specification's words for a comparison \<open>lc\<close> of names,
  to be compared with what \<open>compareFiles\<close> and the sort do. \<open>consistentOn N lc\<close> says that
  \<open>lc\<close> compares the names in \<open>N\<close> as a total preorder does: the signs of \<open>lc x y\<close> and
  \<open>lc y x\<close> are opposite, and \<open>\<le> 0\<close> is transitive.
\<close>

definition rankedBefore ::
  "(jsstring \<Rightarrow> jsstring \<Rightarrow> int) \<Rightarrow> RankedFile \<Rightarrow> RankedFile \<Rightarrow> bool" where
  "rankedBefore lc a b \<longleftrightarrow>
     numberLess (primaryNumber a) (primaryNumber b) \<or>
     primaryNumber a = primaryNumber b \<and>
       (lc (fileName a) (fileName b) < 0 \<or>
        lc (fileName a) (fileName b) = 0 \<and> originalIndex a < originalIndex b)"

definition consistentOn :: "jsstring set \<Rightarrow> (jsstring \<Rightarrow> jsstring \<Rightarrow> int) \<Rightarrow> bool" where
  "consistentOn N lc \<longleftrightarrow>
     (\<forall>x\<in>N. \<forall>y\<in>N. (lc x y < 0) = (0 < lc y x)) \<and>
     (\<forall>x\<in>N. \<forall>y\<in>N. \<forall>z\<in>N. lc x y \<le> 0 \<and> lc y z \<le> 0 \<longrightarrow> lc x z \<le> 0)"

subsection \<open>The score as the specification words it\<close>







subsection \<open>Example batches\<close>

definition batch3 :: "InputFile list" where
  "batch3 = [newFileObj (js ''a'') [1] (js ''ch2.epub''),
             newFileObj (js ''b'') [2] (js ''ch10.epub''),
             newFileObj (js ''c'') [3] (js ''ch1.epub'')]"



text \<open>Three names without a digit: the empty name, a name outside ASCII, and \<open>cover.epub\<close>.\<close>

definition batchPlain :: "InputFile list" where
  "batchPlain = [newFileObj (js ''p'') [] [],
                 newFileObj (js ''q'') [] ([0x4E2D, 0x6587] @ js ''.epub''),
                 newFileObj (js ''r'') [] (js ''cover.epub'')]"

text \<open>
  The batch \<open>batch3\<close> after \<open>FileHandler.updateOutputNames\<close> and a conversion run have
  written output names and statuses into the file objects.
\<close>

definition batch3_later :: "InputFile list" where
  "batch3_later =
     [(newFileObj (js ''a'') [1] (js ''ch2.epub''))\<lparr>status := Completed, outputName := js ''002.zip''\<rparr>,
      (newFileObj (js ''b'') [2] (js ''ch10.epub''))\<lparr>status := Failed, outputName := js ''003.zip'',
         error := Some (js ''x'')\<rparr>,
      (newFileObj (js ''c'') [3] (js ''ch1.epub''))\<lparr>status := Completed, outputName := js ''001.zip''\<rparr>]"


section \<open>The host platform and the JSZip library\<close>

text \<open>
  The repository calls functions it does not define: the platform's string functions
  and the JSZip library, which opens and serialises archives. They are the fields of a
  \<open>Platform\<close>, and every definition below that calls one takes the platform as a
  parameter:
  \<^item> \<open>toLowerCase\<close> is \<open>String.prototype.toLowerCase\<close>;
  \<^item> \<open>localeCompare\<close> is \<open>String.prototype.localeCompare(_, 'zh-CN', {numeric: true})\<close>;
  \<^item> \<open>loadAsync\<close> is \<open>JSZip.loadAsync\<close>: the entries of an archive, or the message of the
    error it rejects with;
  \<^item> \<open>generateAsync\<close> is \<open>JSZip.generateAsync\<close>: the bytes of the serialised archive, or
    the message of the error it rejects with;
  \<^item> \<open>parseMetadata\<close> is \<open>EpubParser.extractMetadata\<close>, which reads the package document
    through the platform's XML parser and never raises.
  A blob is its bytes. An archive under construction or opened (a \<open>JSZip\<close> object) is the
  list of its entries in insertion order; a \<open>ZipObject\<close> holds its path, whether it is a
  directory, and its content: the bytes, or the message of the error reading them
  rejects with.
\<close>

type_synonym blob = "8 word list"

type_synonym JSZip = "(jsstring \<times> blob) list"

record ZipObject =
  path :: jsstring
  dir :: bool
  content :: "jsstring + blob"

record Metadata =
  title :: jsstring
  creator :: jsstring
  language :: jsstring
  publisher :: jsstring
  date :: jsstring
  description :: jsstring
  identifier_meta :: jsstring

record Platform =
  toLowerCase :: "jsstring \<Rightarrow> jsstring"
  localeCompare :: "jsstring \<Rightarrow> jsstring \<Rightarrow> int"
  loadAsync :: "blob \<Rightarrow> jsstring + ZipObject list"
  generateAsync :: "JSZip \<Rightarrow> jsstring + blob"
  parseMetadata :: "ZipObject list \<Rightarrow> Metadata"

text \<open>\<open>zip.file(name)\<close> on an archive under construction: the entry, or \<open>null\<close>.\<close>

definition zipFile :: "JSZip \<Rightarrow> jsstring \<Rightarrow> blob option" where
  "zipFile zp n = map_of zp n"

text \<open>
  \<open>zip.file(name, data)\<close> and \<open>Map.prototype.set(key, value)\<close>: the value of an existing
  key is replaced where it stands, a new key is added at the end. (Entry names here
  hold no \<open>/\<close>, so JSZip creates no folder entries.)
\<close>

fun mapSet :: "('k \<times> 'v) list \<Rightarrow> 'k \<Rightarrow> 'v \<Rightarrow> ('k \<times> 'v) list" where
  "mapSet [] k v = [(k, v)]"
| "mapSet ((k', v') # es) k v = (if k' = k then (k, v) # es else (k', v') # mapSet es k v)"

section \<open>ZipGenerator (src/js/zipGenerator.js)\<close>



definition msgNoZipToPack :: jsstring where
  "msgNoZipToPack = [0x6CA1, 0x6709, 0x6210, 0x529F, 0x751F, 0x6210, 0x7684] @ js ''ZIP'' @
     [0x6587, 0x4EF6, 0x53EF, 0x4EE5, 0x6253, 0x5305]"

definition msgArchiveFailed :: jsstring where
  "msgArchiveFailed = [0x521B, 0x5EFA, 0x603B, 0x538B, 0x7F29, 0x5305, 0x5931, 0x8D25] @ js '': ''"

text \<open>The object \<open>extractImageData\<close> returns for an image (\<open>width\<close> and \<open>height\<close> are \<open>null\<close>).\<close>

record ExtractedImage =
  originalPath :: jsstring
  fileName_img :: jsstring
  blob_img :: blob
  size_img :: nat
  mimeType :: jsstring
  width :: "nat option"
  height :: "nat option"

text \<open>The template \<open>`${nameWithoutExt}_${counter}.${extension}`\<close> of \<open>generateUniqueFileName\<close>.\<close>

definition suffixedName :: "jsstring \<Rightarrow> nat \<Rightarrow> jsstring" where
  "suffixedName originalName' counter =
     removeFileExtension originalName' @ js ''_'' @ toStringNat counter @ js ''.'' @
     getFileExtension originalName'"

lemma suffixedName_inj: "suffixedName n j = suffixedName n k \<Longrightarrow> j = k"
  by (simp add: suffixedName_def toStringNat_inj)

lemma finite_suffixed: "finite {k. c \<le> k \<and> zipFile zp (suffixedName n k) \<noteq> None}"
proof -
  have "suffixedName n ` {k. c \<le> k \<and> zipFile zp (suffixedName n k) \<noteq> None} \<subseteq> dom (map_of zp)"
    by (auto simp: zipFile_def)
  then have "finite (suffixedName n ` {k. c \<le> k \<and> zipFile zp (suffixedName n k) \<noteq> None})"
    by (rule finite_subset) (rule finite_dom_map_of)
  then show ?thesis
    by (rule finite_imageD) (auto intro!: inj_onI dest: suffixedName_inj)
qed

text \<open>
  The loop of \<open>generateUniqueFileName\<close>, with its variables \<open>fileName\<close> and \<open>counter\<close>:
  \<open>while (zip.file(fileName)) { fileName = `...`; counter++ }\<close>. It ends because the
  candidate names differ from one another and the archive holds finitely many entries.
\<close>

function uniqueLoop :: "JSZip \<Rightarrow> jsstring \<Rightarrow> jsstring \<Rightarrow> nat \<Rightarrow> jsstring" where
  "uniqueLoop zp originalName' fname counter =
     (if zipFile zp fname \<noteq> None
      then uniqueLoop zp originalName' (suffixedName originalName' counter) (counter + 1)
      else fname)"
  by pat_completeness auto
termination
proof (relation "measure (\<lambda>(zp, n, fname, c).
    (if zipFile zp fname \<noteq> None then 1 else 0) +
    card {k. c \<le> k \<and> zipFile zp (suffixedName n k) \<noteq> None})")
  show "wf (measure (\<lambda>(zp, n, fname, c).
    (if zipFile zp fname \<noteq> None then 1 else 0) +
    card {k. c \<le> k \<and> zipFile zp (suffixedName n k) \<noteq> None}))"
    by simp
next
  fix zp :: JSZip and n fname :: jsstring and c :: nat
  assume taken: "zipFile zp fname \<noteq> None"
  let ?A = "\<lambda>c. {k. c \<le> k \<and> zipFile zp (suffixedName n k) \<noteq> None}"
  have split: "?A c = (if zipFile zp (suffixedName n c) \<noteq> None then {c} else {}) \<union> ?A (c + 1)"
  proof -
    have "c \<le> k \<longleftrightarrow> k = c \<or> c + 1 \<le> k" for k by auto
    then show ?thesis by auto
  qed
  have "c \<notin> ?A (c + 1)" by simp
  then have "card (?A c) = (if zipFile zp (suffixedName n c) \<noteq> None then 1 else 0) + card (?A (c + 1))"
    using finite_suffixed [of "c + 1" zp n] by (subst split) simp
  with taken
  show "((zp, n, suffixedName n c, c + 1), (zp, n, fname, c)) \<in> measure (\<lambda>(zp, n, fname, c).
    (if zipFile zp fname \<noteq> None then 1 else 0) +
    card {k. c \<le> k \<and> zipFile zp (suffixedName n k) \<noteq> None})"
    by simp
qed

declare uniqueLoop.simps [simp del]

definition generateUniqueFileName :: "JSZip \<Rightarrow> jsstring \<Rightarrow> jsstring" where
  "generateUniqueFileName zp originalName' = uniqueLoop zp originalName' originalName' 1"

text \<open>The loop of \<open>generateZipFromImages\<close> that adds the images to the archive.\<close>

fun addImages :: "JSZip \<Rightarrow> ExtractedImage list \<Rightarrow> JSZip" where
  "addImages zp [] = zp"
| "addImages zp (img # rest) =
     addImages (mapSet zp (generateUniqueFileName zp (fileName_img img)) (blob_img img)) rest"


section \<open>EpubParser (src/js/epubParser.js)\<close>

definition msgNoContainer :: jsstring where
  "msgNoContainer = [0x7F3A, 0x5C11] @ js ''META-INF/container.xml'' @ [0x6587, 0x4EF6]"

definition msgParseFailed :: jsstring where
  "msgParseFailed = [0x89E3, 0x6790, 0x5931, 0x8D25]"

text \<open>The object \<open>parseEpub\<close> returns.\<close>

record ParseResult =
  success_p :: bool
  error_p :: "jsstring option"
  images :: "ExtractedImage list"
  metadata_p :: "Metadata option"
  totalImages :: nat
  totalSize :: nat

subsection \<open>String tests\<close>

text \<open>\<open>String.prototype.endsWith\<close> and \<open>String.prototype.startsWith\<close>.\<close>

definition endsWith :: "'a list \<Rightarrow> 'a list \<Rightarrow> bool" where
  "endsWith s e \<longleftrightarrow> length e \<le> length s \<and> drop (length s - length e) s = e"

definition startsWith :: "'a list \<Rightarrow> 'a list \<Rightarrow> bool" where
  "startsWith s p \<longleftrightarrow> take (length p) s = p"

text \<open>\<open>String.prototype.includes\<close>: the pattern occurs at some position.\<close>

fun includesStr :: "'a list \<Rightarrow> 'a list \<Rightarrow> bool" where
  "includesStr [] p = (p = [])"
| "includesStr (c # cs) p = (startsWith (c # cs) p \<or> includesStr cs p)"

text \<open>
  Matching with the flag \<open>i\<close> and no flag \<open>u\<close>: two code units match when their
  upper-case forms are the same, and a code unit outside ASCII is never folded onto an
  ASCII one. The patterns below are ASCII, so a pattern's code unit matches itself and,
  for a letter, the ASCII letter of the other case; \<open>foldCase\<close> maps \<open>a\<close>..\<open>z\<close> to
  \<open>A\<close>..\<open>Z\<close> and leaves every other code unit.
\<close>

definition foldCase :: "16 word \<Rightarrow> 16 word" where
  "foldCase c = (if 0x61 \<le> c \<and> c \<le> 0x7A then c - 0x20 else c)"

text \<open>\<open>/p/i.test(s)\<close> for a pattern \<open>p\<close> of literal ASCII characters.\<close>

definition testIgnoreCase :: "jsstring \<Rightarrow> jsstring \<Rightarrow> bool" where
  "testIgnoreCase p s = includesStr (map foldCase s) (map foldCase p)"

subsection \<open>isImageFile\<close>

definition imageExtensions :: "jsstring list" where
  "imageExtensions =
     [js ''.jpg'', js ''.jpeg'', js ''.png'', js ''.gif'', js ''.webp'', js ''.bmp'', js ''.svg'']"

text \<open>
  \<open>/\/(images?|pics?|graphics?|assets?|media)\//i.test(path)\<close>: the alternatives of the
  pattern, each between two slashes.
\<close>

definition imageDirectoryNames :: "jsstring list" where
  "imageDirectoryNames =
     [js ''image'', js ''images'', js ''pic'', js ''pics'', js ''graphic'', js ''graphics'',
      js ''asset'', js ''assets'', js ''media'']"

definition isInImageDirectory :: "jsstring \<Rightarrow> bool" where
  "isInImageDirectory p \<longleftrightarrow>
     (\<exists>d\<in>set imageDirectoryNames. testIgnoreCase (js ''/'' @ d @ js ''/'') p)"

text \<open>\<open>/thumb|thumbnail|cover|icon/i.test(lowerPath)\<close>.\<close>

definition thumbnailWords :: "jsstring list" where
  "thumbnailWords = [js ''thumb'', js ''thumbnail'', js ''cover'', js ''icon'']"

definition matchesThumbnail :: "jsstring \<Rightarrow> bool" where
  "matchesThumbnail lowerPath \<longleftrightarrow> (\<exists>w\<in>set thumbnailWords. testIgnoreCase w lowerPath)"

definition isImageFile :: "Platform \<Rightarrow> jsstring \<Rightarrow> bool" where
  "isImageFile pf p =
     (let lowerPath = toLowerCase pf p;
          hasImageExtension = (\<exists>ext\<in>set imageExtensions. endsWith lowerPath ext);
          isNotThumbnail = (\<not> matchesThumbnail lowerPath)
      in hasImageExtension \<and> (isInImageDirectory p \<or> isNotThumbnail))"

subsection \<open>detectImageType\<close>

text \<open>\<open>path.split('.').pop()\<close>: what follows the last dot, the whole string without one.\<close>

definition afterLastDot :: "jsstring \<Rightarrow> jsstring" where
  "afterLastDot s = rev (takeWhile (\<lambda>c. c \<noteq> 0x2E) (rev s))"

text \<open>
  \<open>getMimeTypeFromExtension(path)\<close>. The table is the \<open>mimeMap\<close> of the source, read for
  the extensions written in it.
\<close>

definition getMimeTypeFromExtension :: "Platform \<Rightarrow> jsstring \<Rightarrow> jsstring" where
  "getMimeTypeFromExtension pf p =
     (case map_of
        [(js ''jpg'', js ''image/jpeg''), (js ''jpeg'', js ''image/jpeg''),
         (js ''png'', js ''image/png''), (js ''gif'', js ''image/gif''),
         (js ''webp'', js ''image/webp''), (js ''bmp'', js ''image/bmp''),
         (js ''svg'', js ''image/svg+xml'')]
        (afterLastDot (toLowerCase pf p)) of
        Some m \<Rightarrow> m
      | None \<Rightarrow> js ''image/jpeg'')"

text \<open>
  \<open>detectImageType(data, path)\<close>: the signatures in the source's order. The last test
  decodes the first 1000 bytes as UTF-8 and looks for \<open><svg\<close> or \<open><?xml\<close>; the decoder
  maps the ASCII bytes, and only them, to the same ASCII characters, so the test is the
  search for the bytes of the two words.
\<close>

definition detectImageType :: "Platform \<Rightarrow> blob \<Rightarrow> jsstring \<Rightarrow> jsstring" where
  "detectImageType pf d p =
     (if length d < 4 then getMimeTypeFromExtension pf p
      else if d ! 0 = 0xFF \<and> d ! 1 = 0xD8 \<and> d ! 2 = 0xFF then js ''image/jpeg''
      else if d ! 0 = 0x89 \<and> d ! 1 = 0x50 \<and> d ! 2 = 0x4E \<and> d ! 3 = 0x47 then js ''image/png''
      else if d ! 0 = 0x47 \<and> d ! 1 = 0x49 \<and> d ! 2 = 0x46 \<and> d ! 3 = 0x38 then js ''image/gif''
      else if length d \<ge> 12 \<and>
              d ! 0 = 0x52 \<and> d ! 1 = 0x49 \<and> d ! 2 = 0x46 \<and> d ! 3 = 0x46 \<and>
              d ! 8 = 0x57 \<and> d ! 9 = 0x45 \<and> d ! 10 = 0x42 \<and> d ! 11 = 0x50
           then js ''image/webp''
      else if d ! 0 = 0x42 \<and> d ! 1 = 0x4D then js ''image/bmp''
      else if includesStr (take 1000 d) (map of_char ''<svg'') \<or>
              includesStr (take 1000 d) (map of_char ''<?xml'')
           then js ''image/svg+xml''
      else getMimeTypeFromExtension pf p)"

subsection \<open>Extraction\<close>

text \<open>\<open>originalPath.split('/')\<close> and its last part.\<close>

definition afterLastSlash :: "jsstring \<Rightarrow> jsstring" where
  "afterLastSlash s = rev (takeWhile (\<lambda>c. c \<noteq> 0x2F) (rev s))"

text \<open>\<open>EpubParser.getFileExtension(path)\<close>: \<open>path.match(/\.([^.]+)$/)\<close>, in lower case.\<close>

definition parserFileExtension :: "Platform \<Rightarrow> jsstring \<Rightarrow> jsstring" where
  "parserFileExtension pf p =
     (if 0x2E \<in> set p \<and> afterLastDot p \<noteq> [] then toLowerCase pf (afterLastDot p) else [])"

text \<open>The characters \<open>[a-zA-Z0-9._-]\<close> that \<open>generateImageFileName\<close> keeps in a path.\<close>

definition keptChar :: "16 word \<Rightarrow> bool" where
  "keptChar c \<longleftrightarrow>
     (0x61 \<le> c \<and> c \<le> 0x7A) \<or> (0x41 \<le> c \<and> c \<le> 0x5A) \<or> (0x30 \<le> c \<and> c \<le> 0x39) \<or>
     c = 0x2E \<or> c = 0x5F \<or> c = 0x2D"

definition generateImageFileName :: "Platform \<Rightarrow> jsstring \<Rightarrow> jsstring" where
  "generateImageFileName pf originalPath' =
     (let originalFileName = afterLastSlash originalPath' in
      if originalFileName \<noteq> [] \<and> originalFileName \<noteq> js ''.'' then originalFileName
      else
        let cleanPath = map (\<lambda>c. if keptChar c then c else 0x5F) originalPath';
            extension = (if parserFileExtension pf originalPath' = [] then js ''jpg''
                         else parserFileExtension pf originalPath')
        in js ''image_'' @ cleanPath @ js ''.'' @ extension)"

text \<open>
  \<open>extractImageData(path, file)\<close>: the image, or \<open>null\<close> when reading the entry's bytes
  fails (the error is caught and logged).
\<close>

definition extractImageData :: "Platform \<Rightarrow> jsstring \<Rightarrow> ZipObject \<Rightarrow> ExtractedImage option" where
  "extractImageData pf p f =
     (case content f of
        Inl e \<Rightarrow> None
      | Inr bytes \<Rightarrow>
          Some \<lparr>originalPath = p, fileName_img = generateImageFileName pf p, blob_img = bytes,
                size_img = length bytes, mimeType = detectImageType pf bytes p,
                width = None, height = None\<rparr>)"

text \<open>
  \<open>extractImages(zipContent)\<close>: the entries that are files and pass \<open>isImageFile\<close>, sorted
  by path with the locale comparison, each read by \<open>extractImageData\<close>; an entry that
  cannot be read is left out.
\<close>

definition extractImages :: "Platform \<Rightarrow> ZipObject list \<Rightarrow> ExtractedImage list" where
  "extractImages pf zipContent =
     (let imageFiles = filter (\<lambda>f. \<not> dir f \<and> isImageFile pf (path f)) zipContent;
          sortedFiles' = arraySort (\<lambda>a b. Finite (localeCompare pf (path a) (path b))) imageFiles
      in List.map_filter (\<lambda>f. extractImageData pf (path f) f) sortedFiles')"

text \<open>\<open>zipContent.file(name)\<close> on an opened archive: the entry of that name that is a file.\<close>

definition contentFile :: "ZipObject list \<Rightarrow> jsstring \<Rightarrow> ZipObject option" where
  "contentFile zipContent n = find (\<lambda>f. path f = n \<and> \<not> dir f) zipContent"

text \<open>
  \<open>validateEpubStructure(zipContent)\<close>: reading the \<open>mimetype\<close> entry can fail; its text
  is only compared for a warning. A missing \<open>META-INF/container.xml\<close> is an error.
\<close>

definition validateEpubStructure :: "ZipObject list \<Rightarrow> jsstring + bool" where
  "validateEpubStructure zipContent =
     (case (case contentFile zipContent (js ''mimetype'') of
              None \<Rightarrow> Inr True
            | Some mimetypeFile \<Rightarrow>
                (case content mimetypeFile of Inl e \<Rightarrow> Inl e | Inr bytes \<Rightarrow> Inr True)) of
        Inl e \<Rightarrow> Inl e
      | Inr ok \<Rightarrow>
          (case contentFile zipContent (js ''META-INF/container.xml'') of
             None \<Rightarrow> Inl msgNoContainer
           | Some containerFile \<Rightarrow> Inr True))"

text \<open>The result of \<open>parseEpub\<close> when an error with the given message was caught.\<close>

definition parseFailure :: "jsstring \<Rightarrow> ParseResult" where
  "parseFailure e =
     \<lparr>success_p = False, error_p = Some (if e = [] then msgParseFailed else e), images = [],
      metadata_p = None, totalImages = 0, totalSize = 0\<rparr>"

definition parseEpub :: "Platform \<Rightarrow> blob \<Rightarrow> ParseResult" where
  "parseEpub pf f =
     (case loadAsync pf f of
        Inl e \<Rightarrow> parseFailure e
      | Inr zipContent \<Rightarrow>
          (case validateEpubStructure zipContent of
             Inl e \<Rightarrow> parseFailure e
           | Inr ok \<Rightarrow>
               (let imgs = extractImages pf zipContent;
                    meta = parseMetadata pf zipContent
                in \<lparr>success_p = True, error_p = None, images = imgs, metadata_p = Some meta,
                     totalImages = length imgs, totalSize = sum_list (map size_img imgs)\<rparr>)))"

section \<open>EpubToZipApp (src/js/utils.js)\<close>


definition msgNothingToDownload :: jsstring where
  "msgNothingToDownload = [0x6CA1, 0x6709, 0x53EF, 0x4E0B, 0x8F7D, 0x7684, 0x6587, 0x4EF6]"

definition msgBatchDownload :: jsstring where
  "msgBatchDownload = [0x6279, 0x91CF, 0x4E0B, 0x8F7D]"

definition msgStartDownload :: jsstring where
  "msgStartDownload = [0x5F00, 0x59CB, 0x4E0B, 0x8F7D] @ js '' ''"

definition msgPacking :: jsstring where
  "msgPacking = [0x6B63, 0x5728, 0x6253, 0x5305, 0x6587, 0x4EF6] @ js ''...''"

definition msgStartArchive :: "nat \<Rightarrow> jsstring" where
  "msgStartArchive n =
     [0x5F00, 0x59CB, 0x4E0B, 0x8F7D, 0x6253, 0x5305, 0x6587, 0x4EF6] @ js '' ('' @
     [0x5305, 0x542B] @ js '' '' @ toStringNat n @ js '' '' @ [0x4E2A] @ js ''ZIP'' @
     [0x6587, 0x4EF6] @ js '')''"



definition archiveName :: jsstring where
  "archiveName = js ''epub_converted_files.zip''"

text \<open>The result object \<open>processBatch\<close> stores for a converted file.\<close>

record ConversionResult =
  fileId_res :: jsstring
  fileName_res :: jsstring
  originalName_res :: jsstring
  blob_res :: blob
  size_res :: nat
  imageCount :: nat
  metadata_res :: "Metadata option"
  success :: bool

datatype NotificationType = NSuccess | NError | NWarning | NInfo

text \<open>
  The state of the application that the conversion and the download read and write:
  \<open>selectedFiles\<close> is the map of the \<open>FileHandler\<close> and \<open>processedResults\<close> the map of
  results, both from file id, in insertion order; \<open>notifications\<close> lists the calls of
  \<open>Utils.showNotification\<close> (message and type) and \<open>downloads\<close> the calls of
  \<open>Utils.downloadBlob\<close> (blob and file name), oldest first. The updates of the progress
  display are left out.
\<close>

record AppState =
  selectedFiles :: "(jsstring \<times> InputFile) list"
  processedResults :: "(jsstring \<times> ConversionResult) list"
  notifications :: "(jsstring \<times> NotificationType) list"
  downloads :: "(blob \<times> jsstring) list"

definition showNotification :: "jsstring \<Rightarrow> NotificationType \<Rightarrow> AppState \<Rightarrow> AppState" where
  "showNotification message ty st = st\<lparr>notifications := notifications st @ [(message, ty)]\<rparr>"

definition downloadBlob :: "blob \<Rightarrow> jsstring \<Rightarrow> AppState \<Rightarrow> AppState" where
  "downloadBlob b filename st = st\<lparr>downloads := downloads st @ [(b, filename)]\<rparr>"

text \<open>\<open>Utils.handleError(error, context)\<close> for an error with a message and a context.\<close>

definition handleError :: "jsstring \<Rightarrow> jsstring \<Rightarrow> AppState \<Rightarrow> AppState" where
  "handleError message ctxt st = showNotification (ctxt @ js '': '' @ message) NError st"

text \<open>
  \<open>FileHandler.updateFileStatus(fileId, status, data)\<close>: nothing for an unknown id;
  otherwise the status is set and the fields of \<open>data\<close> are copied into the file object.
  \<open>data\<close> is \<open>{}\<close> (\<open>None\<close>) or \<open>{error: message}\<close>.
\<close>

definition updateFileStatus ::
  "jsstring \<Rightarrow> Status \<Rightarrow> jsstring option \<Rightarrow> AppState \<Rightarrow> AppState" where
  "updateFileStatus fileId' newStatus dat st =
     (case map_of (selectedFiles st) fileId' of
        None \<Rightarrow> st
      | Some f \<Rightarrow>
          st\<lparr>selectedFiles := mapSet (selectedFiles st) fileId'
                (case dat of
                   None \<Rightarrow> f\<lparr>status := newStatus\<rparr>
                 | Some e \<Rightarrow> f\<lparr>status := newStatus, error := Some e\<rparr>)\<rparr>)"




text \<open>\<open>Array.from(this.processedResults.values()).filter(result => result.success)\<close>.\<close>

definition successfulResults :: "AppState \<Rightarrow> ConversionResult list" where
  "successfulResults st = filter success (map snd (processedResults st))"


text \<open>
  \<open>ZipGenerator.createArchive(zipResults, archiveName)\<close>: the bytes of the archive, or the
  message of the error raised. Every result \<open>processBatch\<close> stores holds a blob, so the
  filter \<open>result.success && result.blob\<close> tests \<open>success\<close>.
\<close>

definition createArchive :: "Platform \<Rightarrow> ConversionResult list \<Rightarrow> jsstring + blob" where
  "createArchive pf zipResults =
     (let successful = filter success zipResults in
      if length successful = 0 then Inl (msgArchiveFailed @ msgNoZipToPack)
      else
        case generateAsync pf
               (foldl (\<lambda>archive result. mapSet archive (fileName_res result) (blob_res result))
                  [] successful) of
          Inl e \<Rightarrow> Inl (msgArchiveFailed @ e)
        | Inr archiveBlob \<Rightarrow> Inr archiveBlob)"

text \<open>\<open>downloadAllResults()\<close>.\<close>

definition downloadAllResults :: "Platform \<Rightarrow> AppState \<Rightarrow> AppState" where
  "downloadAllResults pf st =
     (let successful = successfulResults st in
      if length successful = 0 then showNotification msgNothingToDownload NWarning st
      else if length successful = 1 then
        (let result = successful ! 0 in
         showNotification (msgStartDownload @ fileName_res result) NSuccess
           (downloadBlob (blob_res result) (fileName_res result) st))
      else
        (let st1 = showNotification msgPacking NInfo st in
         case createArchive pf successful of
           Inl e \<Rightarrow> handleError e msgBatchDownload st1
         | Inr archiveBlob \<Rightarrow>
             showNotification (msgStartArchive (length successful)) NSuccess
               (downloadBlob archiveBlob archiveName st1)))"

section \<open>An example platform and example books\<close>

text \<open>
  Concrete archives for the closed examples. \<open>asciiLower\<close> is \<open>toLowerCase\<close> on ASCII
  strings. \<open>exampleLoad\<close> opens five blobs: book 1 holds two pictures in an image
  directory and a cover at top level; book 2 holds a cover at top level as its only
  picture; book 3 holds two pictures named \<open>image.jpg\<close> in two directories; book 4 holds
  two pictures named \<open>.jpg\<close> in two directories; book 5 holds a cover at top level and
  a cover in an image directory. \<open>exampleGenerate\<close> serialises an archive
  as the bytes of its entries one after the other.
\<close>

definition asciiLower :: "jsstring \<Rightarrow> jsstring" where
  "asciiLower s = map (\<lambda>c. if 0x41 \<le> c \<and> c \<le> 0x5A then c + 0x20 else c) s"

definition zipEntry :: "string \<Rightarrow> blob \<Rightarrow> ZipObject" where
  "zipEntry p bytes = \<lparr>path = js p, dir = False, content = Inr bytes\<rparr>"

definition zipFolder :: "string \<Rightarrow> ZipObject" where
  "zipFolder p = \<lparr>path = js p, dir = True, content = Inr []\<rparr>"

definition book1 :: "ZipObject list" where
  "book1 = [zipEntry ''mimetype'' [1], zipEntry ''META-INF/container.xml'' [2],
            zipFolder ''OEBPS/images/'',
            zipEntry ''OEBPS/images/p2.jpg'' [0xFF, 0xD8, 0xFF, 0xE0, 2],
            zipEntry ''OEBPS/images/p1.jpg'' [0xFF, 0xD8, 0xFF, 0xE0, 1],
            zipEntry ''cover.jpg'' [0xFF, 0xD8, 0xFF, 0xE0, 0]]"

definition book2 :: "ZipObject list" where
  "book2 = [zipEntry ''META-INF/container.xml'' [2], zipEntry ''OEBPS/text.xhtml'' [3],
            zipEntry ''cover.jpg'' [0xFF, 0xD8, 0xFF, 0xE0, 0]]"

definition book3 :: "ZipObject list" where
  "book3 = [zipEntry ''META-INF/container.xml'' [2],
            zipEntry ''a/image.jpg'' [0xFF, 0xD8, 0xFF, 0xE0, 1],
            zipEntry ''b/image.jpg'' [0xFF, 0xD8, 0xFF, 0xE0, 2]]"

definition book4 :: "ZipObject list" where
  "book4 = [zipEntry ''META-INF/container.xml'' [2],
            zipEntry ''a/.jpg'' [0xFF, 0xD8, 0xFF, 0xE0, 1],
            zipEntry ''b/.jpg'' [0xFF, 0xD8, 0xFF, 0xE0, 2]]"

definition book5 :: "ZipObject list" where
  "book5 = [zipEntry ''META-INF/container.xml'' [2],
            zipEntry ''cover.jpg'' [0xFF, 0xD8, 0xFF, 0xE0, 0],
            zipEntry ''OEBPS/images/cover.jpg'' [0xFF, 0xD8, 0xFF, 0xE0, 1]]"

definition exampleLoad :: "blob \<Rightarrow> jsstring + ZipObject list" where
  "exampleLoad b =
     (if b = [1] then Inr book1 else if b = [2] then Inr book2
      else if b = [3] then Inr book3 else if b = [4] then Inr book4
      else if b = [5] then Inr book5
      else Inl (js ''not an archive''))"

definition exampleGenerate :: "JSZip \<Rightarrow> jsstring + blob" where
  "exampleGenerate zp = Inr (concat (map snd zp))"

text \<open>\<open>getDefaultMetadata()\<close>.\<close>

definition getDefaultMetadata :: Metadata where
  "getDefaultMetadata =
     \<lparr>title = [0x672A, 0x77E5, 0x6807, 0x9898], creator = [0x672A, 0x77E5, 0x4F5C, 0x8005],
      language = js ''zh'', publisher = [], date = [], description = [], identifier_meta = []\<rparr>"

definition examplePlatform :: Platform where
  "examplePlatform =
     \<lparr>toLowerCase = asciiLower, localeCompare = naturalCompare, loadAsync = exampleLoad,
      generateAsync = exampleGenerate, parseMetadata = (\<lambda>zipContent. getDefaultMetadata)\<rparr>"






section \<open>Properties\<close>

lemma isDigit_uint: "isDigit c \<longleftrightarrow> 48 \<le> uint c \<and> uint c \<le> 57"
  by (simp add: isDigit_def word_le_def)

lemma toStringNat_digits: "list_all isDigit (toStringNat n)"
proof (induction n rule: toStringNat.induct)
  case (1 n)
  show ?case
  proof (cases "n < 10")
    case True
    then show ?thesis
      by (subst toStringNat.simps) (simp add: isDigit_uint uint_digit)
  next
    case False
    have "n mod 10 < 10" by simp
    then have "isDigit (digitChar (n mod 10))"
      by (simp only: isDigit_uint uint_digit) simp
    with False 1 show ?thesis
      by (subst toStringNat.simps) simp
  qed
qed

lemma decimalValue_snoc: "decimalValue (xs @ [c]) = decimalValue xs * 10 + (uint c - 48)"
  by (simp add: decimalValue_def)

lemma decimalValue_toStringNat: "decimalValue (toStringNat n) = int n"
  unfolding decimalValue_def by (rule decimal_value_toStringNat)

lemma toStringNat_nonempty: "toStringNat n \<noteq> []"
  by (subst toStringNat.simps) simp

lemma length_toStringNat_mono: "m \<le> n \<Longrightarrow> length (toStringNat m) \<le> length (toStringNat n)"
proof (induction n arbitrary: m rule: toStringNat.induct)
  case (1 n)
  show ?case
  proof (cases "n < 10")
    case True
    with 1(2) have "m < 10" by simp
    with True show ?thesis
      by (simp add: toStringNat.simps [of m] toStringNat.simps [of n])
  next
    case False
    show ?thesis
    proof (cases "m < 10")
      case True
      have "length (toStringNat (n div 10)) \<ge> 1"
        using toStringNat_nonempty [of "n div 10"] by (cases "toStringNat (n div 10)") auto
      with True False show ?thesis
        by (simp add: toStringNat.simps [of m] toStringNat.simps [of n])
    next
      case m: False
      from 1(2) have "m div 10 \<le> n div 10" by (rule div_le_mono)
      from 1(1) [OF False this] m False show ?thesis
        by (simp add: toStringNat.simps [of m] toStringNat.simps [of n])
    qed
  qed
qed

lemma decimalValue_zeros: "decimalValue (replicate k 0x30 @ s) = decimalValue s"
proof -
  have "foldl (\<lambda>acc c. acc * 10 + (uint c - 48)) 0 (replicate k (0x30 :: 16 word)) = (0::int)"
    by (induction k) simp_all
  then show ?thesis by (simp add: decimalValue_def)
qed

lemma decimalValue_padStart: "decimalValue (padStart k 0x30 s) = decimalValue s"
  by (simp add: padStart_def decimalValue_zeros)

lemma length_padStart: "length (padStart k c s) = max k (length s)"
  by (simp add: padStart_def)

lemma padStart_digits: "list_all isDigit s \<Longrightarrow> list_all isDigit (padStart k 0x30 s)"
  by (auto simp: padStart_def isDigit_def list_all_iff)

text \<open>digit strings of equal length: lexicographic order is numeric order\<close>

lemma decimalValue_Cons: "decimalValue (c # cs) = (uint c - 48) * 10 ^ length cs + decimalValue cs"
proof (induction cs arbitrary: c rule: rev_induct)
  case Nil
  then show ?case by (simp add: decimalValue_def)
next
  case (snoc x xs)
  have "decimalValue (c # xs @ [x]) = decimalValue ((c # xs) @ [x])" by simp
  also have "\<dots> = decimalValue (c # xs) * 10 + (uint x - 48)" by (rule decimalValue_snoc)
  finally show ?case by (simp add: snoc decimalValue_snoc algebra_simps)
qed

lemma decimalValue_bounds: "list_all isDigit cs \<Longrightarrow> 0 \<le> decimalValue cs \<and> decimalValue cs < 10 ^ length cs"
proof (induction cs)
  case Nil
  then show ?case by (simp add: decimalValue_def)
next
  case (Cons c cs)
  then have ih: "0 \<le> decimalValue cs" "decimalValue cs < 10 ^ length cs" and ic: "isDigit c"
    by simp_all
  from ic have d: "48 \<le> uint c" "uint c \<le> 57"
    by (simp_all add: isDigit_uint)
  have A: "(uint c - 48) * 10 ^ length cs \<le> 9 * 10 ^ length cs"
    using d by (intro mult_right_mono) simp_all
  have B: "0 \<le> (uint c - 48) * 10 ^ length cs" using d by simp
  have C: "(10::int) ^ length (c # cs) = 10 * 10 ^ length cs" by simp
  show ?case unfolding decimalValue_Cons C using A B ih by linarith
qed

lemma digits_lexordp:
  assumes "length xs = length ys" "list_all isDigit xs" "list_all isDigit ys"
    and "decimalValue xs < decimalValue ys"
  shows "ord_class.lexordp xs ys"
  using assms
proof (induction xs ys rule: list_induct2)
  case Nil
  then show ?case by (simp add: decimalValue_def)
next
  case (Cons x xs y ys)
  from Cons.prems have dxs: "list_all isDigit xs" and dys: "list_all isDigit ys"
    and ix: "isDigit x" and iy: "isDigit y"
    by simp_all
  from ix iy have dx: "48 \<le> uint x" "uint x \<le> 57" and dy: "48 \<le> uint y" "uint y \<le> 57"
    by (simp_all add: isDigit_uint)
  from decimalValue_bounds [OF dxs] Cons.hyps
  have bx: "0 \<le> decimalValue xs" "decimalValue xs < 10 ^ length ys" by simp_all
  from decimalValue_bounds [OF dys]
  have by': "0 \<le> decimalValue ys" "decimalValue ys < 10 ^ length ys" by simp_all
  from Cons.prems(3) Cons.hyps
  have lt: "(uint x - 48) * 10 ^ length ys + decimalValue xs < (uint y - 48) * 10 ^ length ys + decimalValue ys"
    by (simp add: decimalValue_Cons)
  show ?case
  proof (cases "x = y")
    case True
    with lt have "decimalValue xs < decimalValue ys" by simp
    with Cons.IH dxs dys True show ?thesis by simp
  next
    case False
    have "\<not> uint y < uint x"
    proof
      assume "uint y < uint x"
      then have "uint y - 48 + 1 \<le> uint x - 48" by simp
      then have "(uint y - 48 + 1) * 10 ^ length ys \<le> (uint x - 48) * 10 ^ length ys"
        by (intro mult_right_mono) simp_all
      then have "(uint y - 48) * 10 ^ length ys + 10 ^ length ys \<le> (uint x - 48) * 10 ^ length ys"
        by (simp add: algebra_simps)
      with lt bx by' show False by linarith
    qed
    moreover from False have "uint x \<noteq> uint y" by (simp add: word_uint_eq_iff)
    ultimately have "x < y" by (simp add: word_less_def)
    then show ?thesis by simp
  qed
qed

lemma bitLength_le: "n < 2 ^ k \<Longrightarrow> bitLength n \<le> k"
proof (induction n arbitrary: k rule: bitLength.induct)
  case (1 n)
  show ?case
  proof (cases "n = 0")
    case True
    then show ?thesis by (simp add: bitLength.simps)
  next
    case False
    with 1(2) obtain j where k: "k = Suc j" by (cases k) auto
    with 1(2) have "n div 2 < 2 ^ j" by simp
    from 1(1) [OF False this] False k show ?thesis
      by (subst bitLength.simps) simp
  qed
qed

lemma bitLength_lower: "0 < n \<Longrightarrow> 2 ^ (bitLength n - 1) \<le> n"
proof (induction n rule: bitLength.induct)
  case (1 n)
  show ?case
  proof (cases "n div 2 = 0")
    case True
    with 1(2) have "n = 1" by (simp add: div_eq_0_iff) 
    then show ?thesis by (simp add: bitLength.simps)
  next
    case False
    with 1 have ih: "2 ^ (bitLength (n div 2) - 1) \<le> n div 2" by simp
    from False have "bitLength (n div 2) \<noteq> 0" by (subst bitLength.simps) simp
    then have "(2::nat) ^ bitLength (n div 2) = 2 * 2 ^ (bitLength (n div 2) - 1)"
      by (cases "bitLength (n div 2)") simp_all
    with ih have "2 ^ bitLength (n div 2) \<le> 2 * (n div 2)" by linarith
    also have "\<dots> \<le> n" by simp
    finally show ?thesis using 1(2) by (subst bitLength.simps) simp
  qed
qed



lemma roundNat_small: "n < 2 ^ 53 \<Longrightarrow> roundNat n = n"
proof -
  assume "n < 2 ^ 53"
  then have "bitLength n \<le> 53" by (rule bitLength_le)
  then have "bitLength n - 53 = 0" by simp
  then show ?thesis by (simp add: roundNat_def)
qed

lemma roundNat_pos: "0 < n \<Longrightarrow> 0 < roundNat n"
proof -
  assume n: "0 < n"
  let ?e = "bitLength n - 53"
  have "(2::nat) ^ ?e \<le> 2 ^ (bitLength n - 1)" by (rule power_increasing) simp_all
  also from n have "\<dots> \<le> n" by (rule bitLength_lower)
  finally have "0 < n div 2 ^ ?e" by (simp add: div_greater_zero_iff)
  then show ?thesis by (simp add: roundNat_def Let_def)
qed

lemma toNumber_small: "\<bar>n\<bar> < 2 ^ 53 \<Longrightarrow> toNumber n = Finite n"
proof -
  assume a: "\<bar>n\<bar> < 2 ^ 53"
  then have "nat \<bar>n\<bar> < 2 ^ 53" by (simp add: nat_less_iff)
  then have r: "roundNat (nat \<bar>n\<bar>) = nat \<bar>n\<bar>" by (rule roundNat_small)
  have "(2::nat) ^ 53 \<le> 2 ^ 1024" by (rule power_increasing) simp_all
  with \<open>nat \<bar>n\<bar> < 2 ^ 53\<close> have "\<not> nat \<bar>n\<bar> \<ge> 2 ^ 1024" by linarith
  with r show ?thesis by (cases "n < 0") (simp_all add: toNumber_def Let_def)
qed

lemma toNumber_pos: "0 < n \<Longrightarrow> numberLess (Finite 0) (toNumber n)"
  using roundNat_pos [of "nat \<bar>n\<bar>"] by (simp add: toNumber_def Let_def)

lemma toNumber_neg: "n < 0 \<Longrightarrow> \<not> numberLess (Finite 0) (toNumber n)"
  by (simp add: toNumber_def Let_def)

lemma toNumber_nonneg:
  "0 \<le> n \<Longrightarrow> toNumber n = PosInfinity \<or> (\<exists>m\<ge>0. toNumber n = Finite m)"
  by (simp add: toNumber_def Let_def)

lemma decimalValue_nonneg: "list_all isDigit ds \<Longrightarrow> 0 \<le> decimalValue ds"
  by (simp add: decimalValue_bounds)

lemma parseInt_range:
  "list_all isDigit ds \<Longrightarrow> parseInt ds = PosInfinity \<or> (\<exists>m\<ge>0. parseInt ds = Finite m)"
  unfolding parseInt_def by (rule toNumber_nonneg) (rule decimalValue_nonneg)

lemma parseInt_exact: "list_all isDigit ds \<Longrightarrow> length ds \<le> 15 \<Longrightarrow> parseInt ds = Finite (decimalValue ds)"
proof -
  assume d: "list_all isDigit ds" and l: "length ds \<le> 15"
  from decimalValue_bounds [OF d] have b: "0 \<le> decimalValue ds" "decimalValue ds < 10 ^ length ds"
    by simp_all
  from l have "(10::int) ^ length ds \<le> 10 ^ 15" by (intro power_increasing) simp_all
  also have "\<dots> < 2 ^ 53" by simp
  finally have "\<bar>decimalValue ds\<bar> < 2 ^ 53" using b by simp
  then show ?thesis unfolding parseInt_def by (rule toNumber_small)
qed

text \<open>the sign of a difference\<close>

lemma numberSub_positive:
  assumes "wholeOrInfinity x" "wholeOrInfinity y"
  shows "numberLess (Finite 0) (numberSub x y) \<longleftrightarrow> numberLess y x"
proof -
  from assms consider (ff) a b where "x = Finite a" "y = Finite b"
    | (fi) a where "x = Finite a" "y = PosInfinity"
    | (if') b where "x = PosInfinity" "y = Finite b"
    | (ii) "x = PosInfinity" "y = PosInfinity"
    by (auto simp: wholeOrInfinity_def)
  then show ?thesis
  proof cases
    case ff
    show ?thesis
    proof (cases "b < a")
      case True
      then show ?thesis using ff toNumber_pos [of "a - b"] by simp
    next
      case False
      show ?thesis
      proof (cases "a = b")
        case True
        then show ?thesis using ff by (simp add: toNumber_small)
      next
        case ne: False
        with False have "a - b < 0" by simp
        from toNumber_neg [OF this] False ff show ?thesis by simp
      qed
    qed
  qed simp_all
qed

lemma mset_insertBy: "mset (insertBy cmp x ys) = add_mset x (mset ys)"
  by (induction ys) simp_all

lemma mset_arraySort: "mset (arraySort cmp xs) = mset xs"
  by (induction xs) (simp_all add: mset_insertBy)

lemma length_arraySort: "length (arraySort cmp xs) = length xs"
  by (metis mset_arraySort size_mset)

lemma set_arraySort: "set (arraySort cmp xs) = set xs"
  by (metis mset_arraySort set_mset_mset)

lemma rankFile_state: "fst (rankFile files np f) = fst (rankFile files np' f)"
  by (simp add: rankFile_def Let_def split: prod.splits)

lemma fst_mapState:
  assumes "\<And>s s' x. fst (g s x) = fst (g s' x)"
  shows "fst (mapState g s xs) = map (\<lambda>x. fst (g s0 x)) xs"
proof (induction xs arbitrary: s)
  case Nil
  show ?case by simp
next
  case (Cons x xs)
  have "fst (g s x) = fst (g s0 x)" by (rule assms)
  with Cons [of "snd (g s x)"] show ?case
    by (simp add: split_beta Let_def)
qed

lemma extractNumbers_map:
  "fst (extractNumbers np files) = map (\<lambda>f. fst (rankFile files np0 f)) files"
  unfolding extractNumbers_def by (rule fst_mapState) (rule rankFile_state)

lemma length_extractNumbers: "length (fst (extractNumbers np files)) = length files"
  by (simp add: extractNumbers_map [where ?np0.0 = np])

lemma fileObj_rankFile: "fileObj (fst (rankFile files np f)) = f"
  by (simp add: rankFile_def Let_def split: prod.splits)

lemma fst_processFileNames:
  "fst (processFileNames lc np files) =
     generateOutputNames (sortFilesByNumbers lc (fst (extractNumbers np files)))"
  by (simp add: processFileNames_def Let_def split: prod.splits)

lemma length_generateOutputNames: "length (generateOutputNames rs) = length rs"
  by (simp add: generateOutputNames_def Let_def)

lemma nth_generateOutputNames:
  "i < length rs \<Longrightarrow>
     generateOutputNames rs ! i =
       outputMapping (max 3 (length (toStringNat (length rs)))) i (rs ! i)"
  by (simp add: generateOutputNames_def Let_def nth_enumerate_eq)

lemma length_sortFilesByNumbers: "length (sortFilesByNumbers lc rs) = length rs"
  by (simp add: sortFilesByNumbers_def length_arraySort)

lemma length_processFileNames: "length (fst (processFileNames lc np files)) = length files"
  by (simp add: fst_processFileNames length_generateOutputNames length_sortFilesByNumbers
      length_extractNumbers)

lemma sequenceNumber_outputMapping: "sequenceNumber (outputMapping d i f) = i + 1"
  by (simp add: outputMapping_def Let_def)

lemma outputName_outputMapping:
  "outputName_map (outputMapping d i f) = padStart d 0x30 (toStringNat (i + 1)) @ js ''.zip''"
  by (simp add: outputMapping_def Let_def)

lemma fileId_outputMapping: "fileId (outputMapping d i f) = id_file (fileObj f)"
  by (simp add: outputMapping_def Let_def)

lemma map_sequenceNumber: "map sequenceNumber (generateOutputNames rs) = [1..<length rs + 1]"
proof (rule nth_equalityI)
  show "length (map sequenceNumber (generateOutputNames rs)) = length [1..<length rs + 1]"
    by (simp add: length_generateOutputNames del: upt_Suc)
next
  fix i assume "i < length (map sequenceNumber (generateOutputNames rs))"
  then have i: "i < length rs" by (simp add: length_generateOutputNames)
  then have "[1..<length rs + 1] ! i = 1 + i" by (intro nth_upt) simp
  with i show "map sequenceNumber (generateOutputNames rs) ! i = [1..<length rs + 1] ! i"
    by (simp add: length_generateOutputNames nth_generateOutputNames
        sequenceNumber_outputMapping del: upt_Suc)
qed

lemma map_fileId: "map fileId (generateOutputNames rs) = map (\<lambda>r. id_file (fileObj r)) rs"
  by (rule nth_equalityI)
    (simp_all add: length_generateOutputNames nth_generateOutputNames fileId_outputMapping)

text \<open>the padded rank as a digit string of fixed width\<close>

lemma padded_length:
  assumes "i < n"
  shows "length (padStart (max 3 (length (toStringNat n))) 0x30 (toStringNat (i + 1))) =
         max 3 (length (toStringNat n))"
proof -
  from assms have "i + 1 \<le> n" by simp
  then have "length (toStringNat (i + 1)) \<le> length (toStringNat n)"
    by (rule length_toStringNat_mono)
  then show ?thesis by (simp add: length_padStart)
qed

lemma lexordp_append_same:
  "length xs = length ys \<Longrightarrow> ord_class.lexordp xs ys \<Longrightarrow>
     ord_class.lexordp (xs @ zs) (ys @ (zs :: 16 word list))"
  by (induction xs ys rule: list_induct2) auto

lemma padded_less:
  assumes "i < j" "j < n"
  shows "ord_class.lexordp
    (padStart (max 3 (length (toStringNat n))) 0x30 (toStringNat (i + 1)) @ zs)
    (padStart (max 3 (length (toStringNat n))) 0x30 (toStringNat (j + 1)) @ zs)"
proof -
  let ?d = "max 3 (length (toStringNat n))"
  let ?a = "padStart ?d 0x30 (toStringNat (i + 1))"
  let ?b = "padStart ?d 0x30 (toStringNat (j + 1))"
  from assms have "i < n" by simp
  then have la: "length ?a = ?d" by (rule padded_length)
  from assms have lb: "length ?b = ?d" by (intro padded_length)
  have "decimalValue ?a < decimalValue ?b"
    using assms by (simp add: decimalValue_padStart decimalValue_toStringNat)
  with la lb have lt: "ord_class.lexordp ?a ?b"
    by (intro digits_lexordp padStart_digits toStringNat_digits) simp_all
  from la lb have len: "length ?a = length ?b" by simp
  from len lt show ?thesis by (rule lexordp_append_same)
qed




lemma exec_None_iff: "exec 0 s = None \<longleftrightarrow> \<not> (\<exists>c\<in>set s. isDigit c)"
proof -
  have "length (takeWhile (\<lambda>c. \<not> isDigit c) s) = length s \<longleftrightarrow> (\<forall>c\<in>set s. \<not> isDigit c)"
    by (metis takeWhile_eq_all_conv length_takeWhile_le takeWhile_eq_take take_all_iff order_refl)
  moreover have "length (takeWhile (\<lambda>c. \<not> isDigit c) s) \<le> length s"
    by (rule length_takeWhile_le)
  ultimately show ?thesis
    by (auto simp: exec_def Let_def)
qed

lemma execAll_Nil_iff: "fst (execAll 0 s) = [] \<longleftrightarrow> \<not> (\<exists>c\<in>set s. isDigit c)"
proof -
  have "fst (execAll 0 s) = [] \<longleftrightarrow> exec 0 s = None"
    by (subst execAll.simps) (simp split: option.splits prod.splits)
  then show ?thesis by (simp only: exec_None_iff)
qed

lemma hashCode_nonneg: "0 \<le> hashCode s"
  by (simp add: hashCode_def)

lemma hashCode_bound: "hashCode s \<le> 2 ^ 31"
proof -
  have "- (2 ^ 31) \<le> sint (w :: 32 word)" for w
    using sint_ge [of w] by simp
  moreover have "sint (w :: 32 word) < 2 ^ 31" for w
    using sint_lt [of w] by simp
  ultimately show ?thesis
    by (simp add: hashCode_def abs_le_iff) (smt (verit))
qed

lemma rankFile_fields:
  "fileName (fst (rankFile files np f)) = removeFileExtension (name f)"
  "numbers (fst (rankFile files np f)) = fst (execAll 0 (removeFileExtension (name f)))"
  "primaryNumber (fst (rankFile files np f)) =
     getPrimaryNumber (fst (execAll 0 (removeFileExtension (name f)))) (removeFileExtension (name f))"
  "originalIndex (fst (rankFile files np f)) = indexOf files f"
  by (simp_all add: rankFile_def Let_def split: prod.splits)


lemma getPrimaryNumber_single: "getPrimaryNumber [t] s = value_tok t"
  by simp

lemma getPrimaryNumber_none: "getPrimaryNumber [] s = Finite (hashCode s)"
  by simp

lemma exec_token:
  assumes "exec i s = Some (tok, j)"
  shows "originalString tok \<noteq> [] \<and> list_all isDigit (originalString tok) \<and>
         value_tok tok = parseInt (originalString tok) \<and>
         length_tok tok = length (originalString tok) \<and>
         originalString tok = takeWhile isDigit (drop (index tok) s) \<and>
         index tok < length s \<and> i \<le> index tok"
proof -
  define start where "start = i + length (takeWhile (\<lambda>c. \<not> isDigit c) (drop i s))"
  define ds where "ds = takeWhile isDigit (drop start s)"
  from assms have lt: "start < length s"
    and tok: "tok = \<lparr>value_tok = parseInt ds, originalString = ds, index = start,
        length_tok = length ds\<rparr>"
    by (auto simp: exec_def Let_def start_def ds_def split: if_splits)
  have "isDigit (s ! start)"
  proof -
    let ?rest = "drop i s"
    let ?pre = "takeWhile (\<lambda>c. \<not> isDigit c) ?rest"
    have "length ?pre < length ?rest" using lt by (simp add: start_def)
    then have "\<not> (\<lambda>c. \<not> isDigit c) (?rest ! length ?pre)"
      by (rule nth_length_takeWhile)
    moreover have "?rest ! length ?pre = s ! start"
      using lt by (simp add: start_def)
    ultimately show ?thesis by simp
  qed
  then have ne: "ds \<noteq> []"
    using lt by (simp add: ds_def takeWhile_eq_Nil_iff hd_drop_conv_nth)
  have dg: "list_all isDigit ds"
    unfolding ds_def list_all_iff by (meson set_takeWhileD)
  have "i \<le> start" by (simp add: start_def)
  with ne dg lt show ?thesis by (simp add: tok ds_def)
qed

lemma execAll_exec:
  "t \<in> set (fst (execAll i s)) \<Longrightarrow> \<exists>k j. exec k s = Some (t, j)"
proof (induction i s rule: execAll.induct)
  case (1 i s)
  show ?case
  proof (cases "exec i s")
    case None
    with 1(2) show ?thesis by (subst (asm) execAll.simps) simp
  next
    case (Some p)
    obtain tok j where p: "p = (tok, j)" by (cases p)
    from 1(2) Some p have "t = tok \<or> t \<in> set (fst (execAll j s))"
      by (subst (asm) execAll.simps) (simp add: split_beta)
    then show ?thesis
    proof
      assume "t = tok"
      with Some p show ?thesis by blast
    next
      assume "t \<in> set (fst (execAll j s))"
      then show ?thesis by (rule 1(1) [OF Some p [symmetric]])
    qed
  qed
qed

lemma execAll_tokens:
  assumes "t \<in> set (fst (execAll i s))"
  shows "originalString t \<noteq> []" "list_all isDigit (originalString t)"
    "value_tok t = parseInt (originalString t)"
    "length_tok t = length (originalString t)"
    "originalString t = takeWhile isDigit (drop (index t) s)"
proof -
  from execAll_exec [OF assms] obtain k j where "exec k s = Some (t, j)" by blast
  from exec_token [OF this]
  show "originalString t \<noteq> []" "list_all isDigit (originalString t)"
    "value_tok t = parseInt (originalString t)"
    "length_tok t = length (originalString t)"
    "originalString t = takeWhile isDigit (drop (index t) s)"
    by blast+
qed

lemma token_value:
  assumes "list_all isDigit ds"
  shows "wholeOrInfinity (parseInt ds) \<and>
         (length ds \<le> 15 \<longrightarrow> parseInt ds = Finite (decimalValue ds))"
  using parseInt_range [OF assms] parseInt_exact [OF assms]
  by (simp add: wholeOrInfinity_def)










lemma indexOf_nth:
  assumes "distinct xs" "i < length xs"
  shows "indexOf xs (xs ! i) = int i"
proof -
  have "takeWhile (\<lambda>y. y \<noteq> xs ! i) xs = take i xs"
  proof (rule takeWhile_eq_take_P_nth)
    fix j assume "j < i" "j < length xs"
    with assms show "xs ! j \<noteq> xs ! i" by (simp add: nth_eq_iff_index_eq)
  next
    show "\<not> xs ! i \<noteq> xs ! i" by simp
  qed
  with assms show ?thesis by (simp add: indexOf_def)
qed

lemma nth_extractNumbers:
  "i < length files \<Longrightarrow> fst (extractNumbers np files) ! i = fst (rankFile files np (files ! i))"
  by (simp add: extractNumbers_map [where ?np0.0 = np])

lemma originalIndex_extractNumbers:
  assumes "distinct files" "i < length files"
  shows "originalIndex (fst (extractNumbers np files) ! i) = int i"
  using assms by (simp add: nth_extractNumbers rankFile_fields indexOf_nth)

lemma map_originalIndex_extractNumbers:
  assumes "distinct files"
  shows "map originalIndex (fst (extractNumbers np files)) = map int [0..<length files]"
  by (rule nth_equalityI)
    (simp_all add: length_extractNumbers originalIndex_extractNumbers [OF assms])

lemma distinct_extractNumbers:
  assumes "distinct files"
  shows "distinct (map originalIndex (fst (extractNumbers np files)))"
  by (simp add: map_originalIndex_extractNumbers [OF assms] distinct_map)

lemma ascending_extractNumbers:
  assumes "distinct files"
  shows "sorted_wrt (\<lambda>a b. originalIndex a < originalIndex b) (fst (extractNumbers np files))"
proof -
  have "sorted_wrt (<) (map int [0..<length files])"
    by (simp add: sorted_wrt_map del: upt_Suc)
  then have "sorted_wrt (<) (map originalIndex (fst (extractNumbers np files)))"
    by (simp only: map_originalIndex_extractNumbers [OF assms])
  then show ?thesis by (simp only: sorted_wrt_map)
qed

lemma set_insertBy: "set (insertBy cmp x ys) = insert x (set ys)"
  by (induction ys) auto

text \<open>the insertion sort is stable\<close>

lemma sorted_insertBy:
  assumes tr: "\<And>a b c. a \<in> S \<Longrightarrow> b \<in> S \<Longrightarrow> c \<in> S \<Longrightarrow> R a b \<Longrightarrow> R b c \<Longrightarrow> R a c"
    and xS: "x \<in> S"
  shows "sorted_wrt R ys \<Longrightarrow> set ys \<subseteq> S \<Longrightarrow>
     (\<forall>y\<in>set ys. if numberLess (Finite 0) (cmp x y) then R y x else R x y) \<Longrightarrow>
     sorted_wrt R (insertBy cmp x ys)"
proof (induction ys)
  case Nil
  show ?case by simp
next
  case (Cons y ys)
  from Cons.prems(1) have y_less: "\<forall>z\<in>set ys. R y z" and ys_sorted: "sorted_wrt R ys"
    by simp_all
  from Cons.prems(2) have yS: "y \<in> S" and ysS: "set ys \<subseteq> S" by simp_all
  from Cons.prems(3)
  have hd: "if numberLess (Finite 0) (cmp x y) then R y x else R x y"
    and tl: "\<forall>z\<in>set ys. if numberLess (Finite 0) (cmp x z) then R z x else R x z"
    by simp_all
  show ?case
  proof (cases "numberLess (Finite 0) (cmp x y)")
    case True
    with hd have yx: "R y x" by simp
    from Cons.IH [OF ys_sorted ysS tl] have "sorted_wrt R (insertBy cmp x ys)" .
    with yx y_less True show ?thesis by (simp add: set_insertBy)
  next
    case False
    with hd have xy: "R x y" by simp
    have "\<forall>z\<in>set ys. R x z"
    proof
      fix z assume z: "z \<in> set ys"
      with ysS have zS: "z \<in> S" by blast
      from y_less z have "R y z" by blast
      with xy show "R x z" by (rule tr [OF xS yS zS])
    qed
    with xy y_less ys_sorted False show ?thesis by simp
  qed
qed

lemma sorted_arraySort:
  fixes idx :: "'a \<Rightarrow> int"
  assumes tr: "\<And>a b c. a \<in> S \<Longrightarrow> b \<in> S \<Longrightarrow> c \<in> S \<Longrightarrow> R a b \<Longrightarrow> R b c \<Longrightarrow> R a c"
    and place: "\<And>x y. x \<in> S \<Longrightarrow> y \<in> S \<Longrightarrow> idx x < idx y \<Longrightarrow>
       (if numberLess (Finite 0) (cmp x y) then R y x else R x y)"
  shows "sorted_wrt (\<lambda>a b. idx a < idx b) xs \<Longrightarrow> set xs \<subseteq> S \<Longrightarrow>
     sorted_wrt R (arraySort cmp xs)"
proof (induction xs)
  case Nil
  show ?case by simp
next
  case (Cons x xs)
  from Cons.prems(1) have later: "\<forall>y\<in>set xs. idx x < idx y"
    and asc: "sorted_wrt (\<lambda>a b. idx a < idx b) xs" by simp_all
  from Cons.prems(2) have xS: "x \<in> S" and s: "set xs \<subseteq> S" by simp_all
  from s have s': "set (arraySort cmp xs) \<subseteq> S" by (simp only: set_arraySort)
  from Cons.IH [OF asc s] have srt: "sorted_wrt R (arraySort cmp xs)" .
  have pl: "\<forall>y\<in>set (arraySort cmp xs).
      if numberLess (Finite 0) (cmp x y) then R y x else R x y"
  proof
    fix y assume "y \<in> set (arraySort cmp xs)"
    then have y: "y \<in> set xs" by (simp only: set_arraySort)
    with s have yS: "y \<in> S" by blast
    from later y have "idx x < idx y" by blast
    from place [OF xS yS this]
    show "if numberLess (Finite 0) (cmp x y) then R y x else R x y" .
  qed
  have "sorted_wrt R (insertBy cmp x (arraySort cmp xs))"
    using xS srt s' pl
    by (rule sorted_insertBy [where S = S and R = R and x = x and cmp = cmp, rotated])
      (rule tr)
  then show ?case by simp
qed

text \<open>the comparator against the order of the specification\<close>

lemma numberLess_trans: "numberLess x y \<Longrightarrow> numberLess y z \<Longrightarrow> numberLess x z"
  by (cases x; cases y; cases z) simp_all

lemma numberLess_irrefl: "\<not> numberLess x x"
  by (cases x) simp_all

lemma numberLess_linear:
  "wholeOrInfinity x \<Longrightarrow> wholeOrInfinity y \<Longrightarrow> x \<noteq> y \<Longrightarrow> numberLess x y \<or> numberLess y x"
  by (auto simp: wholeOrInfinity_def)

lemma strictEquals_whole: "wholeOrInfinity x \<Longrightarrow> strictEquals x y \<longleftrightarrow> x = y"
  by (auto simp: strictEquals_def wholeOrInfinity_def)

lemma consistentOn_refl: "consistentOn N lc \<Longrightarrow> x \<in> N \<Longrightarrow> lc x x = 0"
proof -
  assume "consistentOn N lc" "x \<in> N"
  then have "(lc x x < 0) = (0 < lc x x)" unfolding consistentOn_def by blast
  then show ?thesis by linarith
qed

lemma consistentOn_less_trans:
  assumes c: "consistentOn N lc" and x: "x \<in> N" and y: "y \<in> N" and z: "z \<in> N"
    and xy: "lc x y \<le> 0" and yz: "lc y z \<le> 0" and strict: "lc x y < 0 \<or> lc y z < 0"
  shows "lc x z < 0"
proof (rule ccontr)
  assume "\<not> lc x z < 0"
  from c have anti: "\<And>a b. a \<in> N \<Longrightarrow> b \<in> N \<Longrightarrow> (lc a b < 0) = (0 < lc b a)"
    and tr: "\<And>a b d. a \<in> N \<Longrightarrow> b \<in> N \<Longrightarrow> d \<in> N \<Longrightarrow> lc a b \<le> 0 \<Longrightarrow> lc b d \<le> 0 \<Longrightarrow> lc a d \<le> 0"
    unfolding consistentOn_def by blast+
  from anti [OF x z] \<open>\<not> lc x z < 0\<close> have zx: "lc z x \<le> 0" by linarith
  from tr [OF z x y zx xy] have zy: "lc z y \<le> 0" .
  from tr [OF y z x yz zx] have yx: "lc y x \<le> 0" .
  from anti [OF x y] yx have "\<not> lc x y < 0" by linarith
  moreover from anti [OF y z] zy have "\<not> lc y z < 0" by linarith
  ultimately show False using strict by blast
qed

lemma consistentOn_zero_trans:
  assumes c: "consistentOn N lc" and x: "x \<in> N" and y: "y \<in> N" and z: "z \<in> N"
    and xy: "lc x y = 0" and yz: "lc y z = 0"
  shows "lc x z = 0"
proof -
  from c have anti: "\<And>a b. a \<in> N \<Longrightarrow> b \<in> N \<Longrightarrow> (lc a b < 0) = (0 < lc b a)"
    and tr: "\<And>a b d. a \<in> N \<Longrightarrow> b \<in> N \<Longrightarrow> d \<in> N \<Longrightarrow> lc a b \<le> 0 \<Longrightarrow> lc b d \<le> 0 \<Longrightarrow> lc a d \<le> 0"
    unfolding consistentOn_def by blast+
  from tr [OF x y z] xy yz have 1: "lc x z \<le> 0" by simp
  from anti [OF x y] xy have yx: "lc y x \<le> 0" by linarith
  from anti [OF y z] yz have zy: "lc z y \<le> 0" by linarith
  from tr [OF z y x zy yx] have "lc z x \<le> 0" .
  with anti [OF x z] have "\<not> lc x z < 0" by linarith
  with 1 show ?thesis by linarith
qed

lemma rankedBefore_trans:
  assumes c: "consistentOn N lc"
    and a: "fileName a \<in> N" and b: "fileName b \<in> N" and d: "fileName d \<in> N"
    and ab: "rankedBefore lc a b" and bd: "rankedBefore lc b d"
  shows "rankedBefore lc a d"
proof -
  let ?p = primaryNumber and ?n = fileName and ?i = originalIndex
  from ab consider (p1) "numberLess (?p a) (?p b)"
    | (n1) "?p a = ?p b" "lc (?n a) (?n b) < 0"
    | (i1) "?p a = ?p b" "lc (?n a) (?n b) = 0" "?i a < ?i b"
    unfolding rankedBefore_def by blast
  then show ?thesis
  proof cases
    case p1
    from bd have "numberLess (?p b) (?p d) \<or> ?p b = ?p d" unfolding rankedBefore_def by blast
    with p1 have "numberLess (?p a) (?p d)" by (auto intro: numberLess_trans)
    then show ?thesis unfolding rankedBefore_def by blast
  next
    case n1
    from bd consider (p2) "numberLess (?p b) (?p d)"
      | (n2) "?p b = ?p d" "lc (?n b) (?n d) \<le> 0"
      unfolding rankedBefore_def by force
    then show ?thesis
    proof cases
      case p2
      with n1 show ?thesis unfolding rankedBefore_def by simp
    next
      case n2
      from consistentOn_less_trans [OF c a b d] n1(2) n2(2)
      have "lc (?n a) (?n d) < 0" by simp
      with n1 n2 show ?thesis unfolding rankedBefore_def by simp
    qed
  next
    case i1
    from bd consider (p2) "numberLess (?p b) (?p d)"
      | (n2) "?p b = ?p d" "lc (?n b) (?n d) < 0"
      | (i2) "?p b = ?p d" "lc (?n b) (?n d) = 0" "?i b < ?i d"
      unfolding rankedBefore_def by blast
    then show ?thesis
    proof cases
      case p2
      with i1 show ?thesis unfolding rankedBefore_def by simp
    next
      case n2
      from consistentOn_less_trans [OF c a b d] i1(2) n2(2)
      have "lc (?n a) (?n d) < 0" by simp
      with i1 n2 show ?thesis unfolding rankedBefore_def by simp
    next
      case i2
      from consistentOn_zero_trans [OF c a b d i1(2) i2(2)] have "lc (?n a) (?n d) = 0" .
      with i1 i2 show ?thesis unfolding rankedBefore_def by simp
    qed
  qed
qed

lemma compareFiles_place:
  assumes c: "consistentOn N lc"
    and a: "fileName a \<in> N" and b: "fileName b \<in> N"
    and wa: "wholeOrInfinity (primaryNumber a)" and wb: "wholeOrInfinity (primaryNumber b)"
    and idx: "originalIndex a < originalIndex b"
  shows "if numberLess (Finite 0) (compareFiles lc a b)
         then rankedBefore lc b a else rankedBefore lc a b"
proof (cases "primaryNumber a = primaryNumber b")
  case False
  then have cmp: "compareFiles lc a b = numberSub (primaryNumber a) (primaryNumber b)"
    using wa by (simp add: compareFiles_def strictEquals_whole)
  from numberLess_linear [OF wa wb False] numberLess_trans numberLess_irrefl
  have "numberLess (primaryNumber b) (primaryNumber a) \<or>
      (numberLess (primaryNumber a) (primaryNumber b) \<and>
       \<not> numberLess (primaryNumber b) (primaryNumber a))"
    by blast
  then show ?thesis
    unfolding cmp numberSub_positive [OF wa wb] rankedBefore_def by auto
next
  case eq: True
  from c have anti: "(lc (fileName a) (fileName b) < 0) = (0 < lc (fileName b) (fileName a))"
    and anti': "(lc (fileName b) (fileName a) < 0) = (0 < lc (fileName a) (fileName b))"
    unfolding consistentOn_def using a b by blast+
  show ?thesis
  proof (cases "fileName a = fileName b")
    case True
    with eq wa have cmp: "compareFiles lc a b = Finite (originalIndex a - originalIndex b)"
      by (simp add: compareFiles_def strictEquals_whole)
    from consistentOn_refl [OF c a] True have "lc (fileName a) (fileName b) = 0" by simp
    with idx eq show ?thesis unfolding cmp rankedBefore_def by simp
  next
    case False
    with eq wa have cmp: "compareFiles lc a b = Finite (lc (fileName a) (fileName b))"
      by (simp add: compareFiles_def strictEquals_whole)
    show ?thesis
    proof (cases "0 < lc (fileName a) (fileName b)")
      case True
      with anti' eq show ?thesis unfolding cmp rankedBefore_def by simp
    next
      case False
      with idx eq show ?thesis unfolding cmp rankedBefore_def by auto
    qed
  qed
qed

lemma execAll_values_whole: "t \<in> set (fst (execAll i s)) \<Longrightarrow> wholeOrInfinity (value_tok t)"
proof -
  assume "t \<in> set (fst (execAll i s))"
  note t = execAll_tokens [OF this]
  from token_value [OF t(2)] show ?thesis by (simp only: t(3))
qed

lemma bestLoop_mem: "bestLoop s b sc ts \<in> set (b # ts)"
  by (induction ts arbitrary: b sc) (auto simp: Let_def)

lemma getPrimaryNumber_whole:
  assumes "\<And>t. t \<in> set toks \<Longrightarrow> wholeOrInfinity (value_tok t)"
  shows "wholeOrInfinity (getPrimaryNumber toks s)"
proof (cases toks)
  case Nil
  then show ?thesis by (simp add: hashCode_nonneg wholeOrInfinity_def)
next
  case (Cons t ts)
  show ?thesis
  proof (cases ts)
    case Nil
    with Cons assms [of t] show ?thesis by simp
  next
    case (Cons u us)
    have "bestLoop s t (calculateNumberScore t s) (u # us) \<in> set (t # u # us)"
      by (rule bestLoop_mem)
    then have "bestLoop s t (calculateNumberScore t s) (u # us) \<in> set toks"
      unfolding \<open>toks = t # ts\<close> Cons .
    then have "wholeOrInfinity (value_tok (bestLoop s t (calculateNumberScore t s) (u # us)))"
      by (rule assms)
    then show ?thesis
      unfolding \<open>toks = t # ts\<close> Cons by (simp only: getPrimaryNumber.simps)
  qed
qed

lemma primaryNumber_rankFile_whole: "wholeOrInfinity (primaryNumber (fst (rankFile files np f)))"
  unfolding rankFile_fields by (rule getPrimaryNumber_whole) (rule execAll_values_whole)

lemma set_extractNumbers:
  "set (fst (extractNumbers np files)) = (\<lambda>f. fst (rankFile files np f)) ` set files"
  by (simp add: extractNumbers_map [where ?np0.0 = np])

text \<open>
  Claim C8. Number extraction, the choice of the primary number and the sort are total
  on every batch, whatever the names (in this model no step has an error branch, because
  no operation of the source can raise on a string): \<open>extractNumbers\<close> ranks every file,
  the sort returns a permutation of the ranked files and \<open>processFileNames\<close> a mapping
  per file. Every primary number is a whole number from 0 on or \<open>Infinity\<close>. A name
  without a digit gets the hash of its stripped name as primary number, and the hash is
  a function of the string with values between 0 and \<open>2^31\<close>.
\<close>

theorem nameProcessor_total:
  "0 \<le> hashCode s \<and> hashCode s \<le> 2 ^ 31 \<and>
   length (fst (extractNumbers np files)) = length files \<and>
   (\<forall>r\<in>set (fst (extractNumbers np files)).
      wholeOrInfinity (primaryNumber r) \<and>
      (numbers r = [] \<longleftrightarrow> \<not> (\<exists>c\<in>set (fileName r). isDigit c)) \<and>
      (numbers r = [] \<longrightarrow> primaryNumber r = Finite (hashCode (fileName r)))) \<and>
   mset (sortFilesByNumbers lc (fst (extractNumbers np files))) =
     mset (fst (extractNumbers np files)) \<and>
   length (fst (processFileNames lc np files)) = length files"
proof -
  have "wholeOrInfinity (primaryNumber r) \<and>
      (numbers r = [] \<longleftrightarrow> \<not> (\<exists>c\<in>set (fileName r). isDigit c)) \<and>
      (numbers r = [] \<longrightarrow> primaryNumber r = Finite (hashCode (fileName r)))"
    if "r \<in> set (fst (extractNumbers np files))" for r
  proof -
    from that obtain f where r: "r = fst (rankFile files np f)"
      unfolding set_extractNumbers by blast
    have "fst (execAll 0 (removeFileExtension (name f))) = [] \<longrightarrow>
        getPrimaryNumber (fst (execAll 0 (removeFileExtension (name f))))
          (removeFileExtension (name f)) = Finite (hashCode (removeFileExtension (name f)))"
      by simp
    then show ?thesis
      unfolding r using primaryNumber_rankFile_whole [of files np f]
      by (simp add: rankFile_fields execAll_Nil_iff)
  qed
  then show ?thesis
    using hashCode_bound [of s]
    by (simp add: hashCode_nonneg length_extractNumbers
        length_processFileNames sortFilesByNumbers_def mset_arraySort)
qed

lemma execAll_no_digit: "\<not> (\<exists>c\<in>set s. isDigit c) \<Longrightarrow> fst (execAll 0 s) = []"
  by (simp add: execAll_Nil_iff)

theorem nameProcessor_total_witness:
  "length (fst (extractNumbers newNameProcessor batchPlain)) = 3 \<and>
   map fileName (fst (extractNumbers newNameProcessor batchPlain)) =
     [[], [0x4E2D, 0x6587], js ''cover''] \<and>
   map primaryNumber (fst (extractNumbers newNameProcessor batchPlain)) =
     [Finite 0, Finite 646394, Finite 94852023] \<and>
   hashCode (js ''cover'') = 94852023"
proof -
  let ?ranked = "fst (extractNumbers newNameProcessor batchPlain)"
  note tot = nameProcessor_total [of "js ''cover''" newNameProcessor batchPlain naturalCompare]
  have l: "length batchPlain = 3" by (simp add: batchPlain_def)
  from tot l have len: "length ?ranked = 3" by simp
  have names: "map fileName ?ranked = [[], [0x4E2D, 0x6587], js ''cover'']"
    by (simp add: extractNumbers_map [where ?np0.0 = newNameProcessor] rankFile_fields
        batchPlain_def newFileObj_def js_def extChar_def)
  have nodigit: "\<not> (\<exists>c\<in>set (fileName r). isDigit c)" if "r \<in> set ?ranked" for r
  proof -
    from that have "fileName r \<in> set (map fileName ?ranked)" by simp
    then show ?thesis unfolding names by (auto simp: js_def isDigit_def)
  qed
  have pn: "primaryNumber r = Finite (hashCode (fileName r))" if "r \<in> set ?ranked" for r
    using tot that nodigit [OF that] by blast
  have "map primaryNumber ?ranked = map (\<lambda>n. Finite (hashCode n)) (map fileName ?ranked)"
    using pn by simp
  also have "\<dots> = [Finite 0, Finite 646394, Finite 94852023]"
    unfolding names by (simp add: hashCode_def hashStep_def js_def)
  finally have pns: "map primaryNumber ?ranked = [Finite 0, Finite 646394, Finite 94852023]" .
  have "hashCode (js ''cover'') = 94852023"
    by (simp add: hashCode_def hashStep_def js_def)
  with len names pns show ?thesis by blast
qed

lemma ranked_batch3:
  "map (\<lambda>r. (fileName r, primaryNumber r, originalIndex r))
     (fst (extractNumbers newNameProcessor batch3)) =
   [(js ''ch2'', Finite 2, 0), (js ''ch10'', Finite 10, 1), (js ''ch1'', Finite 1, 2)]"
  by (simp add: extractNumbers_map [where ?np0.0 = newNameProcessor] rankFile_fields
      indexOf_def batch3_def newFileObj_def js_def extChar_def execAll.simps exec_def
      isDigit_def parseInt_def decimalValue_def toNumber_small Let_def)




lemma extractNumbers_state:
  "fst (extractNumbers np' files) = fst (extractNumbers np files)"
  by (simp add: extractNumbers_map [where ?np0.0 = np])

lemma insertBy_rel:
  assumes "\<And>a a' b b'. R a a' \<Longrightarrow> R b b' \<Longrightarrow> cmp a b = cmp' a' b'"
    and "R x x'" "list_all2 R ys ys'"
  shows "list_all2 R (insertBy cmp x ys) (insertBy cmp' x' ys')"
  using assms(3,2)
proof (induction ys ys' rule: list_all2_induct)
  case Nil
  then show ?case by simp
next
  case (Cons y ys y' ys')
  from assms(1) [OF \<open>R x x'\<close> \<open>R y y'\<close>] have "cmp x y = cmp' x' y'" .
  with Cons show ?case by simp
qed

lemma arraySort_rel:
  assumes "\<And>a a' b b'. R a a' \<Longrightarrow> R b b' \<Longrightarrow> cmp a b = cmp' a' b'"
    and "list_all2 R xs xs'"
  shows "list_all2 R (arraySort cmp xs) (arraySort cmp' xs')"
  using assms(2)
proof (induction xs xs' rule: list_all2_induct)
  case Nil
  then show ?case by simp
next
  case (Cons x xs x' xs')
  from insertBy_rel [of R cmp cmp', OF assms(1) Cons.hyps(1) Cons.IH]
  show ?case by simp
qed

lemma generateOutputNames_rel:
  assumes "list_all2 (\<lambda>r r'. id_file (fileObj r) = id_file (fileObj r') \<and>
             name (fileObj r) = name (fileObj r') \<and> primaryNumber r = primaryNumber r') rs rs'"
  shows "generateOutputNames rs = generateOutputNames rs'"
proof (rule nth_equalityI)
  from assms have len: "length rs = length rs'" by (rule list_all2_lengthD)
  then show "length (generateOutputNames rs) = length (generateOutputNames rs')"
    by (simp add: length_generateOutputNames)
  fix i assume "i < length (generateOutputNames rs)"
  then have i: "i < length rs" by (simp add: length_generateOutputNames)
  with assms have "id_file (fileObj (rs ! i)) = id_file (fileObj (rs' ! i)) \<and>
      name (fileObj (rs ! i)) = name (fileObj (rs' ! i)) \<and>
      primaryNumber (rs ! i) = primaryNumber (rs' ! i)"
    by (rule list_all2_nthD)
  with i len show "generateOutputNames rs ! i = generateOutputNames rs' ! i"
    by (simp add: nth_generateOutputNames outputMapping_def Let_def)
qed

text \<open>
  Claim C5. The mappings \<open>processFileNames\<close> returns do not depend on the state the
  processor is in (the \<open>lastIndex\<close> of its pattern and the \<open>sortedFiles\<close> of an earlier
  run), so a second run on the same batch returns the mappings of the first; and they
  depend on the batch only through the ids and names of the files in their order: two
  batches of distinct file objects with the same ids and names, position by position,
  get identical mappings, whatever their other fields hold.
\<close>

theorem processFileNames_pure:
  "fst (processFileNames lc np' files) = fst (processFileNames lc np files) \<and>
   fst (processFileNames lc (snd (processFileNames lc np files)) files) =
     fst (processFileNames lc np files) \<and>
   (map id_file files' = map id_file files \<and> map name files' = map name files \<and>
    distinct (map id_file files) \<longrightarrow>
      fst (processFileNames lc np' files') = fst (processFileNames lc np files))"
proof (intro conjI impI)
  show "fst (processFileNames lc np' files) = fst (processFileNames lc np files)"
    by (simp add: fst_processFileNames extractNumbers_state [of np' files np])
  show "fst (processFileNames lc (snd (processFileNames lc np files)) files) =
     fst (processFileNames lc np files)"
    by (simp add: fst_processFileNames
        extractNumbers_state [of "snd (processFileNames lc np files)" files np])
next
  assume H: "map id_file files' = map id_file files \<and> map name files' = map name files \<and>
    distinct (map id_file files)"
  then have ids: "map id_file files' = map id_file files"
    and names: "map name files' = map name files"
    and d: "distinct files" and d': "distinct files'"
    by (auto simp: distinct_map) (metis distinct_map)
  from ids have len: "length files' = length files" by (rule map_eq_imp_length_eq)
  define R :: "RankedFile \<Rightarrow> RankedFile \<Rightarrow> bool"
    where "R = (\<lambda>r r'. fileName r = fileName r' \<and> primaryNumber r = primaryNumber r' \<and>
      originalIndex r = originalIndex r' \<and> id_file (fileObj r) = id_file (fileObj r') \<and>
      name (fileObj r) = name (fileObj r'))"
  let ?rs = "fst (extractNumbers np files)" and ?rs' = "fst (extractNumbers np' files')"
  have rel: "list_all2 R ?rs' ?rs"
  proof (rule list_all2_all_nthI)
    show "length ?rs' = length ?rs" by (simp add: length_extractNumbers len)
    fix i assume "i < length ?rs'"
    then have i': "i < length files'" and i: "i < length files"
      by (simp_all add: length_extractNumbers len)
    from ids i i' have "id_file (files' ! i) = id_file (files ! i)"
      by (metis nth_map)
    moreover from names i i' have "name (files' ! i) = name (files ! i)"
      by (metis nth_map)
    ultimately show "R (?rs' ! i) (?rs ! i)"
      using i i' d d'
      by (simp add: R_def nth_extractNumbers rankFile_fields fileObj_rankFile indexOf_nth)
  qed
  have cmp: "compareFiles lc a b = compareFiles lc a' b'" if "R a a'" "R b b'" for a a' b b'
    using that by (simp add: R_def compareFiles_def)
  have "list_all2 R (sortFilesByNumbers lc ?rs') (sortFilesByNumbers lc ?rs)"
    unfolding sortFilesByNumbers_def using cmp rel by (rule arraySort_rel)
  then have "list_all2 (\<lambda>r r'. id_file (fileObj r) = id_file (fileObj r') \<and>
             name (fileObj r) = name (fileObj r') \<and> primaryNumber r = primaryNumber r')
      (sortFilesByNumbers lc ?rs') (sortFilesByNumbers lc ?rs)"
    by (rule list_all2_mono) (simp add: R_def)
  then have "generateOutputNames (sortFilesByNumbers lc ?rs') =
      generateOutputNames (sortFilesByNumbers lc ?rs)"
    by (rule generateOutputNames_rel)
  then show "fst (processFileNames lc np' files') = fst (processFileNames lc np files)"
    by (simp add: fst_processFileNames)
qed

theorem processFileNames_pure_witness:
  "map id_file batch3_later = map id_file batch3 \<and>
   map name batch3_later = map name batch3 \<and>
   distinct (map id_file batch3) \<and>
   batch3_later \<noteq> batch3 \<and>
   fst (processFileNames naturalCompare
         (snd (processFileNames naturalCompare newNameProcessor batch3)) batch3_later) =
     fst (processFileNames naturalCompare newNameProcessor batch3)"
proof -
  have 1: "map id_file batch3_later = map id_file batch3"
    and 2: "map name batch3_later = map name batch3"
    and 3: "distinct (map id_file batch3)"
    and 4: "batch3_later \<noteq> batch3"
    by (simp_all add: batch3_def batch3_later_def newFileObj_def js_def)
  from processFileNames_pure [of naturalCompare
      "snd (processFileNames naturalCompare newNameProcessor batch3)" batch3 newNameProcessor
      batch3_later] 1 2 3
  have "fst (processFileNames naturalCompare
         (snd (processFileNames naturalCompare newNameProcessor batch3)) batch3_later) =
     fst (processFileNames naturalCompare newNameProcessor batch3)"
    by blast
  with 1 2 3 4 show ?thesis by blast
qed

lemma toStringNat_1000: "toStringNat 1000 = js ''1000''"
  by (simp add: toStringNat.simps js_def digitChar_def)

lemma toStringNat_1: "toStringNat (Suc 0) = [0x31]"
  by (simp add: toStringNat.simps digitChar_def)

text \<open>
  Claim C1. For a non-empty batch of \<open>N\<close> files, \<open>processFileNames\<close> returns \<open>N\<close> mappings,
  one per input file; the mapping at position \<open>r\<close> is that of the file at position \<open>r\<close> of
  the sorted order (its id, its name and its primary number), and the sorted order is a
  permutation of the ranked input files which, for files of distinct ids and a comparison
  of names that is consistent on the batch, ascends strictly in the order of the
  specification; the sequence numbers are \<open>1, ..., N\<close> in order; each output name is
  the sequence number padded with zeros to \<open>max 3 (number of digits of N)\<close> digits,
  followed by \<open>.zip\<close>; the output names are pairwise distinct; their lexicographic order
  (by code units) is the order of the sequence numbers; and for \<open>N = 1000\<close> the width is 4
  and the names run from \<open>0001.zip\<close> to \<open>1000.zip\<close>.
\<close>

theorem processFileNames_sequence:
  assumes "files \<noteq> []"
  shows
    "let N = length files;
         ranked = fst (extractNumbers np files);
         sortedList = sortFilesByNumbers lc ranked;
         result = fst (processFileNames lc np files);
         digits = max 3 (length (toStringNat N))
     in length result = N \<and>
        map sequenceNumber result = [1..<N + 1] \<and>
        map fileId result = map (\<lambda>r. id_file (fileObj r)) sortedList \<and>
        map originalName result = map (\<lambda>r. name (fileObj r)) sortedList \<and>
        map primaryNumber_map result = map primaryNumber sortedList \<and>
        map fileObj ranked = files \<and>
        mset sortedList = mset ranked \<and>
        (distinct (map id_file files) \<and> consistentOn (set (map fileName ranked)) lc \<longrightarrow>
           sorted_wrt (rankedBefore lc) sortedList) \<and>
        mset (map fileId result) = mset (map id_file files) \<and>
        (\<forall>i<N. outputName_map (result ! i) =
                  padStart digits 0x30 (toStringNat (sequenceNumber (result ! i))) @ js ''.zip'') \<and>
        distinct (map outputName_map result) \<and>
        (\<forall>i<N. \<forall>j<N. ord_class.lexordp (outputName_map (result ! i)) (outputName_map (result ! j))
                    \<longleftrightarrow> sequenceNumber (result ! i) < sequenceNumber (result ! j)) \<and>
        (N = 1000 \<longrightarrow> digits = 4 \<and> outputName_map (result ! 0) = js ''0001.zip'' \<and>
                       outputName_map (result ! 999) = js ''1000.zip'')"
proof -
  define N where "N = length files"
  define ranked where "ranked = fst (extractNumbers np files)"
  define sortedList where "sortedList = sortFilesByNumbers lc ranked"
  define result where "result = fst (processFileNames lc np files)"
  define digits where "digits = max 3 (length (toStringNat N))"
  have res: "result = generateOutputNames sortedList"
    by (simp add: result_def sortedList_def ranked_def fst_processFileNames)
  have lenS: "length sortedList = N"
    by (simp add: sortedList_def ranked_def N_def length_sortFilesByNumbers length_extractNumbers)
  have len: "length result = N"
    by (simp add: res length_generateOutputNames lenS)
  have seqs: "map sequenceNumber result = [1..<N + 1]"
    unfolding res using map_sequenceNumber [of sortedList] by (simp only: lenS)
  have seq: "sequenceNumber (result ! i) = i + 1" if "i < N" for i
    using that by (simp add: res nth_generateOutputNames lenS sequenceNumber_outputMapping)
  have nm: "outputName_map (result ! i) = padStart digits 0x30 (toStringNat (i + 1)) @ js ''.zip''"
    if "i < N" for i
    using that by (simp add: res nth_generateOutputNames lenS outputName_outputMapping digits_def)
  have ids: "mset (map fileId result) = mset (map id_file files)"
  proof -
    have "mset (map fileId result) = image_mset (\<lambda>r. id_file (fileObj r)) (mset sortedList)"
      by (simp add: res map_fileId)
    also have "mset sortedList = mset (fst (extractNumbers np files))"
      by (simp add: sortedList_def ranked_def sortFilesByNumbers_def mset_arraySort)
    also have "image_mset (\<lambda>r. id_file (fileObj r)) \<dots> = mset (map id_file files)"
      by (simp add: extractNumbers_map [where ?np0.0 = np] fileObj_rankFile image_mset.compositionality comp_def)
    finally show ?thesis .
  qed
  have lid: "map fileId result = map (\<lambda>r. id_file (fileObj r)) sortedList"
    by (simp only: res map_fileId)
  have lname: "map originalName result = map (\<lambda>r. name (fileObj r)) sortedList"
    by (rule nth_equalityI)
      (simp_all add: res length_generateOutputNames nth_generateOutputNames outputMapping_def
        Let_def)
  have lprim: "map primaryNumber_map result = map primaryNumber sortedList"
    by (rule nth_equalityI)
      (simp_all add: res length_generateOutputNames nth_generateOutputNames outputMapping_def
        Let_def)
  have objs: "map fileObj ranked = files"
    by (simp add: ranked_def extractNumbers_map [where ?np0.0 = np] fileObj_rankFile comp_def)
  have perm: "mset sortedList = mset ranked"
    by (simp add: sortedList_def sortFilesByNumbers_def mset_arraySort)
  have asc: "sorted_wrt (rankedBefore lc) sortedList"
    if d: "distinct (map id_file files)" and c: "consistentOn (set (map fileName ranked)) lc"
  proof -
    from d have df: "distinct files" by (simp add: distinct_map)
    have nm: "fileName a \<in> set (map fileName ranked)" if "a \<in> set ranked" for a
      using that by simp
    have wh: "wholeOrInfinity (primaryNumber a)" if "a \<in> set ranked" for a
    proof -
      from that obtain f where "a = fst (rankFile files np f)"
        unfolding ranked_def set_extractNumbers by blast
      then show ?thesis by (simp only: primaryNumber_rankFile_whole)
    qed
    have tr: "rankedBefore lc a e" if "a \<in> set ranked" "b \<in> set ranked" "e \<in> set ranked"
      "rankedBefore lc a b" "rankedBefore lc b e" for a b e
      using c nm [OF that(1)] nm [OF that(2)] nm [OF that(3)] that(4,5)
      by (rule rankedBefore_trans)
    have place: "if numberLess (Finite 0) (compareFiles lc x y)
        then rankedBefore lc y x else rankedBefore lc x y"
      if "x \<in> set ranked" "y \<in> set ranked" "originalIndex x < originalIndex y" for x y
      using c nm [OF that(1)] nm [OF that(2)] wh [OF that(1)] wh [OF that(2)] that(3)
      by (rule compareFiles_place)
    have "sorted_wrt (\<lambda>a b. originalIndex a < originalIndex b) ranked"
      unfolding ranked_def using df by (rule ascending_extractNumbers)
    moreover have "set ranked \<subseteq> set ranked" by simp
    ultimately have "sorted_wrt (rankedBefore lc) (arraySort (compareFiles lc) ranked)"
      by (rule sorted_arraySort [where S = "set ranked" and idx = originalIndex, rotated 2])
        (rule tr, assumption+, rule place, assumption+)
    then show ?thesis by (simp only: sortedList_def sortFilesByNumbers_def)
  qed
  have asc': "distinct (map id_file files) \<and> consistentOn (set (map fileName ranked)) lc \<longrightarrow>
           sorted_wrt (rankedBefore lc) sortedList"
    using asc by blast
  have less: "ord_class.lexordp (outputName_map (result ! i)) (outputName_map (result ! j))"
    if "i < j" "j < N" for i j
    using that padded_less [of i j N "js ''.zip''"] by (simp add: nm digits_def)
  have iff: "ord_class.lexordp (outputName_map (result ! i)) (outputName_map (result ! j)) \<longleftrightarrow> i < j"
    if "i < N" "j < N" for i j
  proof
    assume l: "ord_class.lexordp (outputName_map (result ! i)) (outputName_map (result ! j))"
    show "i < j"
    proof (rule ccontr)
      assume "\<not> i < j"
      then consider "i = j" | "j < i" by linarith
      then show False
      proof cases
        case 1
        with l show False by (simp add: lexordp_irreflexive')
      next
        case 2
        from less [OF 2 that(1)] l show False by (rule lexordp_antisym)
      qed
    qed
  next
    assume "i < j"
    then show "ord_class.lexordp (outputName_map (result ! i)) (outputName_map (result ! j))"
      using that by (intro less)
  qed
  have dist: "distinct (map outputName_map result)"
  proof (subst distinct_conv_nth, intro allI impI)
    fix i j
    assume "i < length (map outputName_map result)" "j < length (map outputName_map result)" "i \<noteq> j"
    then have i: "i < N" and j: "j < N" and ne: "i \<noteq> j" by (simp_all add: len)
    from ne consider "i < j" | "j < i" by linarith
    then have "outputName_map (result ! i) \<noteq> outputName_map (result ! j)"
    proof cases
      case 1
      from less [OF 1 j] show ?thesis by (auto simp: lexordp_irreflexive')
    next
      case 2
      from less [OF 2 i] show ?thesis by (auto simp: lexordp_irreflexive')
    qed
    with i j show "map outputName_map result ! i \<noteq> map outputName_map result ! j"
      by (simp add: len)
  qed
  have thousand: "digits = 4 \<and> outputName_map (result ! 0) = js ''0001.zip'' \<and>
      outputName_map (result ! 999) = js ''1000.zip''" if "N = 1000"
  proof -
    have d: "digits = 4" by (simp add: digits_def that toStringNat_1000 js_def)
    have "outputName_map (result ! 0) = js ''0001.zip''"
      using nm [of 0] that by (simp add: d toStringNat_1 padStart_def js_def numeral_3_eq_3)
    moreover have "outputName_map (result ! 999) = js ''1000.zip''"
      using nm [of 999] that by (simp add: d toStringNat_1000 padStart_def js_def)
    ultimately show ?thesis using d by simp
  qed
  have nm': "\<forall>i<N. outputName_map (result ! i) =
      padStart digits 0x30 (toStringNat (sequenceNumber (result ! i))) @ js ''.zip''"
    using nm seq by simp
  have iff': "\<forall>i<N. \<forall>j<N.
      ord_class.lexordp (outputName_map (result ! i)) (outputName_map (result ! j))
        \<longleftrightarrow> sequenceNumber (result ! i) < sequenceNumber (result ! j)"
    using iff seq by simp
  have thousand': "N = 1000 \<longrightarrow> digits = 4 \<and>
      outputName_map (result ! 0) = js ''0001.zip'' \<and>
      outputName_map (result ! 999) = js ''1000.zip''"
    using thousand by blast
  have "length result = N \<and>
        map sequenceNumber result = [1..<N + 1] \<and>
        map fileId result = map (\<lambda>r. id_file (fileObj r)) sortedList \<and>
        map originalName result = map (\<lambda>r. name (fileObj r)) sortedList \<and>
        map primaryNumber_map result = map primaryNumber sortedList \<and>
        map fileObj ranked = files \<and>
        mset sortedList = mset ranked \<and>
        (distinct (map id_file files) \<and> consistentOn (set (map fileName ranked)) lc \<longrightarrow>
           sorted_wrt (rankedBefore lc) sortedList) \<and>
        mset (map fileId result) = mset (map id_file files) \<and>
        (\<forall>i<N. outputName_map (result ! i) =
                  padStart digits 0x30 (toStringNat (sequenceNumber (result ! i))) @ js ''.zip'') \<and>
        distinct (map outputName_map result) \<and>
        (\<forall>i<N. \<forall>j<N. ord_class.lexordp (outputName_map (result ! i)) (outputName_map (result ! j))
                    \<longleftrightarrow> sequenceNumber (result ! i) < sequenceNumber (result ! j)) \<and>
        (N = 1000 \<longrightarrow> digits = 4 \<and> outputName_map (result ! 0) = js ''0001.zip'' \<and>
                       outputName_map (result ! 999) = js ''1000.zip'')"
    using len seqs lid lname lprim objs perm asc' ids nm' dist iff' thousand' by (intro conjI)
  then show ?thesis
    unfolding Let_def N_def result_def digits_def sortedList_def ranked_def .
qed

lemma naturalCompare_batch3:
  "naturalCompare (js ''ch2'') (js ''ch2'') = 0"
  "naturalCompare (js ''ch2'') (js ''ch10'') = - 1"
  "naturalCompare (js ''ch2'') (js ''ch1'') = 1"
  "naturalCompare (js ''ch10'') (js ''ch2'') = 1"
  "naturalCompare (js ''ch10'') (js ''ch10'') = 0"
  "naturalCompare (js ''ch10'') (js ''ch1'') = 1"
  "naturalCompare (js ''ch1'') (js ''ch2'') = - 1"
  "naturalCompare (js ''ch1'') (js ''ch10'') = - 1"
  "naturalCompare (js ''ch1'') (js ''ch1'') = 0"
  by (simp_all add: naturalCompare_def js_def isDigit_def decimalValue_def)

lemma names_batch3:
  "map fileName (fst (extractNumbers newNameProcessor batch3)) =
     [js ''ch2'', js ''ch10'', js ''ch1'']"
  by (simp add: extractNumbers_map [where ?np0.0 = newNameProcessor] rankFile_fields
      batch3_def newFileObj_def js_def extChar_def)

lemma sorted_batch3:
  "map (\<lambda>r. name (fileObj r))
     (sortFilesByNumbers naturalCompare (fst (extractNumbers newNameProcessor batch3))) =
   [js ''ch1.epub'', js ''ch2.epub'', js ''ch10.epub'']"
  "map primaryNumber
     (sortFilesByNumbers naturalCompare (fst (extractNumbers newNameProcessor batch3))) =
   [Finite 1, Finite 2, Finite 10]"
proof -
  let ?ranked = "fst (extractNumbers newNameProcessor batch3)"
  have len: "length ?ranked = 3" by (simp add: length_extractNumbers batch3_def)
  then obtain r0 r1 r2 where r: "?ranked = [r0, r1, r2]"
    by (metis (no_types, lifting) length_0_conv length_Suc_conv numeral_3_eq_3)
  from ranked_batch3 have f: "fileName r0 = js ''ch2''" "fileName r1 = js ''ch10''"
      "fileName r2 = js ''ch1''"
    and p: "primaryNumber r0 = Finite 2" "primaryNumber r1 = Finite 10"
      "primaryNumber r2 = Finite 1"
    and i: "originalIndex r0 = 0" "originalIndex r1 = 1" "originalIndex r2 = 2"
    unfolding r by simp_all
  have "map fileObj ?ranked = batch3"
    by (simp add: extractNumbers_map [where ?np0.0 = newNameProcessor] fileObj_rankFile comp_def)
  then have o: "name (fileObj r0) = js ''ch2.epub''" "name (fileObj r1) = js ''ch10.epub''"
      "name (fileObj r2) = js ''ch1.epub''"
    unfolding r by (simp_all add: batch3_def newFileObj_def)
  have s: "sortFilesByNumbers naturalCompare ?ranked = [r2, r0, r1]"
    unfolding r
    by (simp add: sortFilesByNumbers_def compareFiles_def strictEquals_def p toNumber_small)
  show "map (\<lambda>r. name (fileObj r)) (sortFilesByNumbers naturalCompare ?ranked) =
      [js ''ch1.epub'', js ''ch2.epub'', js ''ch10.epub'']"
    by (simp add: s o)
  show "map primaryNumber (sortFilesByNumbers naturalCompare ?ranked) =
      [Finite 1, Finite 2, Finite 10]"
    by (simp add: s p)
qed

theorem processFileNames_sequence_witness:
  "batch3 \<noteq> [] \<and> distinct (map id_file batch3) \<and>
   consistentOn (set (map fileName (fst (extractNumbers newNameProcessor batch3)))) naturalCompare \<and>
   length (fst (processFileNames naturalCompare newNameProcessor batch3)) = 3 \<and>
   map sequenceNumber (fst (processFileNames naturalCompare newNameProcessor batch3)) = [1, 2, 3] \<and>
   map originalName (fst (processFileNames naturalCompare newNameProcessor batch3)) =
     [js ''ch1.epub'', js ''ch2.epub'', js ''ch10.epub''] \<and>
   map outputName_map (fst (processFileNames naturalCompare newNameProcessor batch3)) =
     [js ''001.zip'', js ''002.zip'', js ''003.zip''] \<and>
   map primaryNumber_map (fst (processFileNames naturalCompare newNameProcessor batch3)) =
     [Finite 1, Finite 2, Finite 10] \<and>
   sorted_wrt (rankedBefore naturalCompare)
     (sortFilesByNumbers naturalCompare (fst (extractNumbers newNameProcessor batch3))) \<and>
   distinct (map outputName_map (fst (processFileNames naturalCompare newNameProcessor batch3)))"
proof -
  let ?result = "fst (processFileNames naturalCompare newNameProcessor batch3)"
  let ?ranked = "fst (extractNumbers newNameProcessor batch3)"
  let ?sorted = "sortFilesByNumbers naturalCompare ?ranked"
  have ne: "batch3 \<noteq> []" by (simp add: batch3_def)
  have d: "distinct (map id_file batch3)" by (simp add: batch3_def newFileObj_def js_def)
  have l: "length batch3 = 3" by (simp add: batch3_def)
  have t3: "max 3 (length (toStringNat 3)) = 3" by (simp add: toStringNat.simps)
  note names = names_batch3
  have c: "consistentOn (set (map fileName ?ranked)) naturalCompare"
    unfolding names by (simp add: consistentOn_def naturalCompare_batch3)
  note inst = processFileNames_sequence [OF ne, where lc = naturalCompare
      and np = newNameProcessor, unfolded Let_def l t3]
  from inst have len: "length ?result = 3" by blast
  from inst have "map sequenceNumber ?result = [1..<3 + 1]" by blast
  then have seqs: "map sequenceNumber ?result = [1, 2, 3]" by (simp add: upt_rec)
  from inst have "map originalName ?result = map (\<lambda>r. name (fileObj r)) ?sorted" by blast
  also have "\<dots> = [js ''ch1.epub'', js ''ch2.epub'', js ''ch10.epub'']"
    by (rule sorted_batch3)
  finally have onames: "map originalName ?result =
      [js ''ch1.epub'', js ''ch2.epub'', js ''ch10.epub'']" .
  from inst have "map primaryNumber_map ?result = map primaryNumber ?sorted" by blast
  also have "\<dots> = [Finite 1, Finite 2, Finite 10]"
    by (rule sorted_batch3)
  finally have prims: "map primaryNumber_map ?result = [Finite 1, Finite 2, Finite 10]" .
  from inst d c have srt: "sorted_wrt (rankedBefore naturalCompare) ?sorted" by blast
  from inst have nm: "\<forall>i<3. outputName_map (?result ! i) =
      padStart 3 0x30 (toStringNat (sequenceNumber (?result ! i))) @ js ''.zip''" by blast
  have sq: "sequenceNumber (?result ! i) = map sequenceNumber ?result ! i" if "i < 3" for i
    using that len by simp
  have "map outputName_map ?result = [js ''001.zip'', js ''002.zip'', js ''003.zip'']"
  proof (rule nth_equalityI)
    show "length (map outputName_map ?result) = length [js ''001.zip'', js ''002.zip'', js ''003.zip'']"
      using len by simp
    fix i assume "i < length (map outputName_map ?result)"
    with len have i: "i < 3" by simp
    then consider "i = 0" | "i = 1" | "i = 2" by linarith
    then show "map outputName_map ?result ! i = [js ''001.zip'', js ''002.zip'', js ''003.zip''] ! i"
    proof cases
      case 1
      with nm sq [of 0] len show ?thesis
        by (simp add: seqs toStringNat.simps digitChar_def padStart_def js_def numeral_2_eq_2)
    next
      case 2
      with nm sq [of 1] len show ?thesis
        by (simp add: seqs toStringNat.simps digitChar_def padStart_def js_def numeral_2_eq_2)
    next
      case 3
      with nm sq [of 2] len show ?thesis
        by (simp add: seqs toStringNat.simps digitChar_def padStart_def js_def numeral_2_eq_2)
    qed
  qed
  then have outs: "map outputName_map ?result = [js ''001.zip'', js ''002.zip'', js ''003.zip'']" .
  from inst have dist: "distinct (map outputName_map ?result)" by blast
  from ne d c len seqs onames outs prims srt dist show ?thesis by (intro conjI)
qed


lemma mapSet_new: "map_of m k = None \<Longrightarrow> mapSet m k v = m @ [(k, v)]"
  by (induction m) (auto split: if_splits)

lemma uniqueLoop_free: "zipFile zp (uniqueLoop zp n f c) = None"
proof (induction zp n f c rule: uniqueLoop.induct)
  case (1 zp n f c)
  show ?case
  proof (cases "zipFile zp f = None")
    case True
    then show ?thesis by (subst uniqueLoop.simps) simp
  next
    case False
    with 1 show ?thesis by (subst uniqueLoop.simps) simp
  qed
qed

lemma generateUniqueFileName_free: "map_of zp (generateUniqueFileName zp n) = None"
  using uniqueLoop_free [of zp n n 1] by (simp add: generateUniqueFileName_def zipFile_def)

lemma addImages_entries:
  "map snd (addImages zp imgs) = map snd zp @ map blob_img imgs"
proof (induction imgs arbitrary: zp)
  case Nil
  show ?case by simp
next
  case (Cons img imgs)
  have "mapSet zp (generateUniqueFileName zp (fileName_img img)) (blob_img img) =
      zp @ [(generateUniqueFileName zp (fileName_img img), blob_img img)]"
    by (rule mapSet_new) (rule generateUniqueFileName_free)
  then show ?case by (simp add: Cons)
qed

lemma addImages_distinct:
  "distinct (map fst zp) \<Longrightarrow> distinct (map fst (addImages zp imgs))"
proof (induction imgs arbitrary: zp)
  case Nil
  then show ?case by simp
next
  case (Cons img imgs)
  let ?n = "generateUniqueFileName zp (fileName_img img)"
  have new: "mapSet zp ?n (blob_img img) = zp @ [(?n, blob_img img)]"
    by (rule mapSet_new) (rule generateUniqueFileName_free)
  have "?n \<notin> fst ` set zp"
    using generateUniqueFileName_free [of zp "fileName_img img"]
    by (simp add: map_of_eq_None_iff)
  with Cons.prems have "distinct (map fst (zp @ [(?n, blob_img img)]))" by simp
  from Cons.IH [OF this] show ?case by (simp add: new)
qed

lemma isImageFile_excluded:
  assumes "matchesThumbnail (toLowerCase pf p)" "\<not> isInImageDirectory p"
  shows "\<not> isImageFile pf p"
  using assms by (simp add: isImageFile_def Let_def)

lemma extractImages_source:
  assumes "img \<in> set (extractImages pf zipContent)"
  shows "\<exists>f\<in>set zipContent. \<not> dir f \<and> isImageFile pf (path f) \<and>
           originalPath img = path f \<and> content f = Inr (blob_img img)"
proof -
  let ?files = "filter (\<lambda>f. \<not> dir f \<and> isImageFile pf (path f)) zipContent"
  let ?sorted = "arraySort (\<lambda>a b. Finite (localeCompare pf (path a) (path b))) ?files"
  from assms obtain f where f: "f \<in> set ?sorted" and e: "extractImageData pf (path f) f = Some img"
    by (auto simp: extractImages_def Let_def List.map_filter_def)
  from f have "f \<in> set ?files"
    by (simp only: set_arraySort)
  moreover from e have "originalPath img = path f \<and> content f = Inr (blob_img img)"
    by (auto simp: extractImageData_def split: sum.splits)
  ultimately show ?thesis by auto
qed

lemma images_parseEpub:
  assumes "img \<in> set (images (parseEpub pf b))"
  shows "\<exists>zipContent. loadAsync pf b = Inr zipContent \<and> img \<in> set (extractImages pf zipContent)"
  using assms by (auto simp: parseEpub_def parseFailure_def Let_def split: sum.splits)

lemma cover_matches: "matchesThumbnail (asciiLower (js ''cover.jpg''))"
proof -
  have "testIgnoreCase (js ''cover'') (asciiLower (js ''cover.jpg''))"
    by (simp add: testIgnoreCase_def asciiLower_def js_def foldCase_def startsWith_def)
  then show ?thesis by (auto simp: matchesThumbnail_def thumbnailWords_def)
qed

lemma includesStr_hd: "includesStr s (c # q) \<Longrightarrow> c \<in> set s"
  by (induction s) (auto simp: startsWith_def)

lemma foldCase_slash: "foldCase c = 0x2F \<longleftrightarrow> c = 0x2F"
proof
  assume "foldCase c = 0x2F"
  show "c = 0x2F"
  proof (cases "0x61 \<le> c \<and> c \<le> 0x7A")
    case False
    with \<open>foldCase c = 0x2F\<close> show ?thesis by (simp add: foldCase_def)
  next
    case True
    with \<open>foldCase c = 0x2F\<close> have "c = 0x4F" by (simp add: foldCase_def)
    with True show ?thesis by simp
  qed
qed (simp add: foldCase_def)

lemma top_level_not_in_directory:
  assumes "0x2F \<notin> set p"
  shows "\<not> isInImageDirectory p"
proof
  assume "isInImageDirectory p"
  then obtain d where "includesStr (map foldCase p) (map foldCase (js ''/'' @ d @ js ''/''))"
    by (auto simp: isInImageDirectory_def testIgnoreCase_def)
  then have "includesStr (map foldCase p) (0x2F # map foldCase (d @ js ''/''))"
    by (simp add: js_def foldCase_def)
  then have "0x2F \<in> set (map foldCase p)" by (rule includesStr_hd)
  then obtain c where c: "c \<in> set p" "foldCase c = 0x2F" by auto
  from c(2) have "c = 0x2F" by (simp only: foldCase_slash)
  with c(1) assms show False by simp
qed


lemma processedResults_updateFileStatus [simp]:
  "processedResults (updateFileStatus i s d st) = processedResults st"
  by (simp add: updateFileStatus_def split: option.splits)






























lemma extractImages_complete:
  assumes "f \<in> set zipContent" "\<not> dir f" "isImageFile pf (path f)" "content f = Inr bytes"
  shows "\<exists>img\<in>set (extractImages pf zipContent). originalPath img = path f \<and> blob_img img = bytes"
proof -
  let ?files = "filter (\<lambda>f. \<not> dir f \<and> isImageFile pf (path f)) zipContent"
  let ?sorted = "arraySort (\<lambda>a b. Finite (localeCompare pf (path a) (path b))) ?files"
  let ?img = "\<lparr>originalPath = path f, fileName_img = generateImageFileName pf (path f),
      blob_img = bytes, size_img = length bytes, mimeType = detectImageType pf bytes (path f),
      width = None, height = None\<rparr>"
  from assms have "f \<in> set ?sorted" by (simp add: set_arraySort)
  moreover from assms have "extractImageData pf (path f) f = Some ?img"
    by (simp add: extractImageData_def)
  ultimately have "?img \<in> set (extractImages pf zipContent)"
    by (force simp: extractImages_def Let_def List.map_filter_def)
  then show ?thesis by (intro bexI [of _ ?img]) simp_all
qed

text \<open>
  Claim C10. An entry whose lower-cased path matches \<open>thumb\<close>, \<open>thumbnail\<close>, \<open>cover\<close> or
  \<open>icon\<close> and whose path does not lie in an image directory (the test of the source:
  \<open>/image/\<close>, \<open>/images/\<close>, \<open>/pic/\<close>, ..., \<open>/media/\<close> somewhere in the path) is not an image
  file for the parser, whatever its extension: no extracted image comes from it, neither
  in \<open>extractImages\<close> nor in the result of \<open>parseEpub\<close>. A path without a slash, an entry
  at the top of the archive, never lies in an image directory. An entry with an image
  extension that does lie in an image directory is extracted with its bytes, also when
  its path matches one of the four words. The archive that \<open>generateZipFromImages\<close>
  serialises holds exactly the bytes of the extracted images, one entry each.
\<close>

theorem thumbnails_excluded:
  "(matchesThumbnail (toLowerCase pf p) \<and> \<not> isInImageDirectory p \<longrightarrow>
      \<not> isImageFile pf p \<and>
      (\<forall>img\<in>set (extractImages pf zipContent). originalPath img \<noteq> p) \<and>
      (\<forall>img\<in>set (images (parseEpub pf b)). originalPath img \<noteq> p)) \<and>
   (0x2F \<notin> set p \<longrightarrow> \<not> isInImageDirectory p) \<and>
   (\<forall>f\<in>set zipContent. \<forall>bytes.
      \<not> dir f \<and> content f = Inr bytes \<and> isInImageDirectory (path f) \<and>
      (\<exists>ext\<in>set imageExtensions. endsWith (toLowerCase pf (path f)) ext) \<longrightarrow>
      (\<exists>img\<in>set (extractImages pf zipContent).
         originalPath img = path f \<and> blob_img img = bytes)) \<and>
   map snd (addImages [] (images (parseEpub pf b))) = map blob_img (images (parseEpub pf b))"
proof -
  have 1: "matchesThumbnail (toLowerCase pf p) \<and> \<not> isInImageDirectory p \<longrightarrow>
      \<not> isImageFile pf p \<and>
      (\<forall>img\<in>set (extractImages pf zipContent). originalPath img \<noteq> p) \<and>
      (\<forall>img\<in>set (images (parseEpub pf b)). originalPath img \<noteq> p)"
  proof
    assume H: "matchesThumbnail (toLowerCase pf p) \<and> \<not> isInImageDirectory p"
    then have no: "\<not> isImageFile pf p" by (simp add: isImageFile_excluded)
    have ex: "\<forall>img\<in>set (extractImages pf zc). originalPath img \<noteq> p" for zc
      using no extractImages_source [of _ pf zc] by metis
    have "\<forall>img\<in>set (images (parseEpub pf b)). originalPath img \<noteq> p"
      using ex images_parseEpub [of _ pf b] by metis
    with no ex show "\<not> isImageFile pf p \<and>
      (\<forall>img\<in>set (extractImages pf zipContent). originalPath img \<noteq> p) \<and>
      (\<forall>img\<in>set (images (parseEpub pf b)). originalPath img \<noteq> p)"
      by blast
  qed
  have 2: "0x2F \<notin> set p \<longrightarrow> \<not> isInImageDirectory p"
    using top_level_not_in_directory by blast
  have 3: "\<forall>f\<in>set zipContent. \<forall>bytes.
      \<not> dir f \<and> content f = Inr bytes \<and> isInImageDirectory (path f) \<and>
      (\<exists>ext\<in>set imageExtensions. endsWith (toLowerCase pf (path f)) ext) \<longrightarrow>
      (\<exists>img\<in>set (extractImages pf zipContent).
         originalPath img = path f \<and> blob_img img = bytes)"
  proof (intro ballI allI impI)
    fix f bytes
    assume f: "f \<in> set zipContent"
      and H: "\<not> dir f \<and> content f = Inr bytes \<and> isInImageDirectory (path f) \<and>
        (\<exists>ext\<in>set imageExtensions. endsWith (toLowerCase pf (path f)) ext)"
    then have "isImageFile pf (path f)" by (simp add: isImageFile_def Let_def)
    with f H show "\<exists>img\<in>set (extractImages pf zipContent).
         originalPath img = path f \<and> blob_img img = bytes"
      by (intro extractImages_complete) simp_all
  qed
  have 4: "map snd (addImages [] (images (parseEpub pf b))) = map blob_img (images (parseEpub pf b))"
    by (simp add: addImages_entries)
  from 1 2 3 4 show ?thesis by (intro conjI)
qed

lemma cover_in_directory: "isInImageDirectory (js ''OEBPS/images/cover.jpg'')"
proof -
  have "testIgnoreCase (js ''/'' @ js ''images'' @ js ''/'') (js ''OEBPS/images/cover.jpg'')"
    by (simp add: testIgnoreCase_def js_def foldCase_def startsWith_def)
  then show ?thesis by (auto simp: isInImageDirectory_def imageDirectoryNames_def)
qed

lemma cover_extension:
  "\<exists>ext\<in>set imageExtensions.
     endsWith (toLowerCase examplePlatform (js ''OEBPS/images/cover.jpg'')) ext"
proof
  show "endsWith (toLowerCase examplePlatform (js ''OEBPS/images/cover.jpg'')) (js ''.jpg'')"
    by (simp add: examplePlatform_def asciiLower_def endsWith_def js_def)
  show "js ''.jpg'' \<in> set imageExtensions" by (simp add: imageExtensions_def)
qed

theorem thumbnails_excluded_witness:
  "matchesThumbnail (toLowerCase examplePlatform (js ''cover.jpg'')) \<and>
   \<not> isInImageDirectory (js ''cover.jpg'') \<and>
   js ''cover.jpg'' \<in> path ` set book5 \<and>
   \<not> isImageFile examplePlatform (js ''cover.jpg'') \<and>
   js ''cover.jpg'' \<notin> originalPath ` set (extractImages examplePlatform book5) \<and>
   js ''cover.jpg'' \<notin> originalPath ` set (images (parseEpub examplePlatform [5])) \<and>
   isInImageDirectory (js ''OEBPS/images/cover.jpg'') \<and>
   js ''OEBPS/images/cover.jpg'' \<in> originalPath ` set (extractImages examplePlatform book5)"
proof -
  have 1: "matchesThumbnail (toLowerCase examplePlatform (js ''cover.jpg''))"
    using cover_matches by (simp add: examplePlatform_def)
  note inst = thumbnails_excluded [of examplePlatform "js ''cover.jpg''" book5 "[5]"]
  from inst have 2: "\<not> isInImageDirectory (js ''cover.jpg'')" by (simp add: js_def)
  have 3: "js ''cover.jpg'' \<in> path ` set book5"
    by (simp add: book5_def zipEntry_def)
  from inst 1 2
  have 4: "\<not> isImageFile examplePlatform (js ''cover.jpg'')"
    and "\<forall>img\<in>set (extractImages examplePlatform book5). originalPath img \<noteq> js ''cover.jpg''"
    and "\<forall>img\<in>set (images (parseEpub examplePlatform [5])). originalPath img \<noteq> js ''cover.jpg''"
    by blast+
  then have 5: "js ''cover.jpg'' \<notin> originalPath ` set (extractImages examplePlatform book5)"
    and 6: "js ''cover.jpg'' \<notin> originalPath ` set (images (parseEpub examplePlatform [5]))"
    by auto
  let ?f = "zipEntry ''OEBPS/images/cover.jpg'' [0xFF, 0xD8, 0xFF, 0xE0, 1]"
  have f: "?f \<in> set book5" "\<not> dir ?f" "content ?f = Inr [0xFF, 0xD8, 0xFF, 0xE0, 1]"
    "path ?f = js ''OEBPS/images/cover.jpg''"
    by (simp_all add: book5_def zipEntry_def)
  from inst have rule: "\<forall>f\<in>set book5. \<forall>bytes.
      \<not> dir f \<and> content f = Inr bytes \<and> isInImageDirectory (path f) \<and>
      (\<exists>ext\<in>set imageExtensions. endsWith (toLowerCase examplePlatform (path f)) ext) \<longrightarrow>
      (\<exists>img\<in>set (extractImages examplePlatform book5).
         originalPath img = path f \<and> blob_img img = bytes)"
    by blast
  from f cover_in_directory cover_extension
  have "\<not> dir ?f \<and> content ?f = Inr [0xFF, 0xD8, 0xFF, 0xE0, 1] \<and>
      isInImageDirectory (path ?f) \<and>
      (\<exists>ext\<in>set imageExtensions. endsWith (toLowerCase examplePlatform (path ?f)) ext)"
    by (simp only: simp_thms)
  with rule [rule_format, OF f(1), of "[0xFF, 0xD8, 0xFF, 0xE0, 1]"]
  have "\<exists>img\<in>set (extractImages examplePlatform book5).
      originalPath img = path ?f \<and> blob_img img = [0xFF, 0xD8, 0xFF, 0xE0, 1]"
    by blast
  then have 8: "js ''OEBPS/images/cover.jpg'' \<in> originalPath ` set (extractImages examplePlatform book5)"
    unfolding f(4) by force
  from 1 2 3 4 5 6 cover_in_directory 8 show ?thesis by (intro conjI)
qed

lemma notifications_updateFileStatus [simp]:
  "notifications (updateFileStatus i s d st) = notifications st"
  by (simp add: updateFileStatus_def split: option.splits)











end
